theory Spec2Isabelle
  imports Main "HOL-Library.Word" "HOL-Library.Monad_Syntax"
begin

unbundle bit_operations_syntax

section \<open>The memory model of clist.h\<close>

text \<open>
  The list of \<^verbatim>\<open>clist.h\<close> is a pointer structure, so the embedding works on an explicit
  store. A pointer is an \<open>addr option\<close>: \<open>None\<close> is \<^verbatim>\<open>NULL\<close>. Every function returns an
  \<open>option\<close>: \<open>None\<close> stands for a run that has no defined result (a \<^verbatim>\<open>NULL\<close> or dangling
  pointer is dereferenced), \<open>Some\<close> carries the returned value and the store afterwards.
  \<^verbatim>\<open>size_t\<close> is 64 bits wide: sizes and indices are naturals below \<open>2 ^ 64\<close> and every
  addition and subtraction of the source that can wrap is written with \<open>sz_add\<close> and
  \<open>sz_sub\<close>. \<^verbatim>\<open>unsigned int\<close> (the flags) is a 32-bit word.
\<close>

type_synonym addr = nat

definition SIZE_LIMIT :: nat where
  "SIZE_LIMIT = 2 ^ 64"

definition sz_add :: "nat \<Rightarrow> nat \<Rightarrow> nat" where
  "sz_add a b = (a + b) mod SIZE_LIMIT"

definition sz_sub :: "nat \<Rightarrow> nat \<Rightarrow> nat" where
  "sz_sub a b = (a + SIZE_LIMIT - b) mod SIZE_LIMIT"

definition sizeof_ptr :: nat where
  "sizeof_ptr = 8"

text \<open>\<^verbatim>\<open>sizeof(clist_node_t)\<close>: the two pointers \<^verbatim>\<open>next\<close> and \<^verbatim>\<open>prev\<close>.\<close>

definition sizeof_node :: nat where
  "sizeof_node = 2 * sizeof_ptr"

definition EXIT_SUCCESS :: int where
  "EXIT_SUCCESS = 0"

definition EXIT_FAILURE :: int where
  "EXIT_FAILURE = 1"

definition CLIST_PAYLOAD_IGNORE :: "32 word" where
  "CLIST_PAYLOAD_IGNORE = 0"

definition CLIST_PAYLOAD_FREE :: "32 word" where
  "CLIST_PAYLOAD_FREE = 1"

text \<open>
  A node (\<^verbatim>\<open>clist_node_t\<close> followed by its inline payload): \<open>nxt\<close> and \<open>prv\<close> are the
  fields \<^verbatim>\<open>next\<close> and \<^verbatim>\<open>prev\<close>; \<open>payload\<close> is the value stored behind the header, \<open>None\<close>
  while it has never been written.
\<close>

record 'a node =
  nxt :: "addr option"
  prv :: "addr option"
  payload :: "'a option"

text \<open>The struct \<^verbatim>\<open>clist_t\<close>, field by field (\<open>size_l\<close> is the field \<^verbatim>\<open>size\<close>).\<close>

record clist =
  head :: "addr option"
  tail :: "addr option"
  rul :: "addr option"
  pkb :: "addr option"
  type_size :: nat
  size_l :: nat
  ruly :: nat
  zskb :: nat
  flags :: "32 word"

text \<open>
  The store: the list objects and the nodes that are allocated, by address; the allocator
  (\<open>brk\<close> is the next fresh address, \<open>budget\<close> the number of allocations that will still
  succeed, \<open>mallocs\<close> counts the calls of \<^verbatim>\<open>malloc\<close>); and \<open>freed\<close>, the payload pointers handed
  to \<^verbatim>\<open>free\<close> by a list in free-on-remove mode, in call order.
\<close>

record 'a mem =
  lists :: "addr \<Rightarrow> clist option"
  nodes :: "addr \<Rightarrow> 'a node option"
  brk :: addr
  budget :: nat
  mallocs :: nat
  freed :: "'a option list"

definition node_at :: "'a mem \<Rightarrow> addr option \<Rightarrow> 'a node option" where
  "node_at s p = (case p of None \<Rightarrow> None | Some a \<Rightarrow> nodes s a)"

definition upd_node :: "addr option \<Rightarrow> ('a node \<Rightarrow> 'a node) \<Rightarrow> 'a mem \<Rightarrow> 'a mem option" where
  "upd_node p f s =
     (case p of None \<Rightarrow> None
      | Some a \<Rightarrow> (case nodes s a of None \<Rightarrow> None
                   | Some nd \<Rightarrow> Some (s\<lparr>nodes := (nodes s)(a \<mapsto> f nd)\<rparr>)))"

definition upd_list :: "addr \<Rightarrow> (clist \<Rightarrow> clist) \<Rightarrow> 'a mem \<Rightarrow> 'a mem option" where
  "upd_list l f s =
     (case lists s l of None \<Rightarrow> None
      | Some L \<Rightarrow> Some (s\<lparr>lists := (lists s)(l \<mapsto> f L)\<rparr>))"

text \<open>
  \<^verbatim>\<open>malloc(sz)\<close> for a node: it fails when the budget is used up or no address is left, else
  it returns the fresh address \<open>brk\<close> of a block of \<open>sz\<close> bytes. A block of at least
  \<^verbatim>\<open>sizeof(clist_node_t)\<close> bytes holds a node, whose links are written before they are read
  (\<^verbatim>\<open>vnut_cl_insert_node\<close>) and whose payload is unwritten. A smaller block holds no node:
  the address is returned, but every access to a node there (\<open>node_at\<close>, \<open>upd_node\<close>) is out
  of the block and has no value. The size that \<^verbatim>\<open>clist_insert\<close> asks for is
  \<^verbatim>\<open>sizeof(clist_node_t) + type_size\<close> in \<^verbatim>\<open>size_t\<close>, which is below \<^verbatim>\<open>sizeof(clist_node_t)\<close>
  exactly when the sum wraps, so that a block that holds the node holds its payload too.
\<close>

definition malloc_node :: "nat \<Rightarrow> 'a mem \<Rightarrow> addr option \<times> 'a mem" where
  "malloc_node sz s =
     (if 0 < budget s \<and> brk s < SIZE_LIMIT
      then (Some (brk s),
            s\<lparr>nodes := (if sizeof_node \<le> sz
                         then (nodes s)(brk s \<mapsto> \<lparr>nxt = None, prv = None, payload = None\<rparr>)
                         else nodes s),
              brk := brk s + 1, budget := budget s - 1, mallocs := mallocs s + 1\<rparr>)
      else (None, s\<lparr>mallocs := mallocs s + 1\<rparr>))"

text \<open>
  \<^verbatim>\<open>free(p)\<close> of a payload pointer, in free-on-remove mode. A payload that was never
  written is an indeterminate pointer, and a pointer that \<^verbatim>\<open>free\<close> has had before is
  dangling: for both the call has no value. Every other payload stands for a pointer to a
  live block, and the call appends it to the log \<open>freed\<close>.
\<close>

definition free_ptr :: "'a option \<Rightarrow> 'a mem \<Rightarrow> 'a mem option" where
  "free_ptr p s =
     (if p = None \<or> p \<in> set (freed s) then None else Some (s\<lparr>freed := freed s @ [p]\<rparr>))"

text \<open>\<^verbatim>\<open>malloc(sizeof(clist_t))\<close>: \<open>junk\<close> is the indeterminate content of the new object.\<close>

definition malloc_list :: "clist \<Rightarrow> 'a mem \<Rightarrow> addr option \<times> 'a mem" where
  "malloc_list junk s =
     (if 0 < budget s \<and> brk s < SIZE_LIMIT
      then (Some (brk s),
            s\<lparr>lists := (lists s)(brk s \<mapsto> junk),
              brk := brk s + 1, budget := budget s - 1, mallocs := mallocs s + 1\<rparr>)
      else (None, s\<lparr>mallocs := mallocs s + 1\<rparr>))"

section \<open>Construction and the accessors\<close>

definition clist_init :: "addr option \<Rightarrow> nat \<Rightarrow> 32 word \<Rightarrow> 'a mem \<Rightarrow> (int \<times> 'a mem) option" where
  "clist_init list tsz dynamic s =
     (case list of
        None \<Rightarrow> Some (EXIT_FAILURE, s)
      | Some l \<Rightarrow>
          if 0 < tsz
             \<and> (dynamic = CLIST_PAYLOAD_IGNORE \<or> dynamic = CLIST_PAYLOAD_FREE)
             \<and> (dynamic = CLIST_PAYLOAD_IGNORE \<or> tsz = sizeof_ptr)
          then do {
            s' \<leftarrow> upd_list l (\<lambda>L. L\<lparr>head := None, tail := None, pkb := None,
                                     type_size := tsz, size_l := 0, zskb := 0,
                                     flags := dynamic AND 1\<rparr>) s;
            Some (EXIT_SUCCESS, s')
          }
          else Some (EXIT_FAILURE, s))"

definition clist_new :: "nat \<Rightarrow> 32 word \<Rightarrow> clist \<Rightarrow> 'a mem \<Rightarrow> (addr option \<times> 'a mem) option" where
  "clist_new tsz dynamic junk s =
     (case malloc_list junk s of
        (None, s1) \<Rightarrow> Some (None, s1)
      | (Some l, s1) \<Rightarrow> do {
          (ok, s2) \<leftarrow> clist_init (Some l) tsz dynamic s1;
          if ok \<noteq> EXIT_SUCCESS
          then Some (None, s2\<lparr>lists := (lists s2)(l := None)\<rparr>)
          else Some (Some l, s2)
        })"

definition clist_size :: "addr option \<Rightarrow> 'a mem \<Rightarrow> nat option" where
  "clist_size list s =
     (case list of None \<Rightarrow> Some 0 | Some l \<Rightarrow> do { L \<leftarrow> lists s l; Some (size_l L) })"

definition clist_empty :: "addr option \<Rightarrow> 'a mem \<Rightarrow> int option" where
  "clist_empty list s =
     (case list of None \<Rightarrow> Some 1
      | Some l \<Rightarrow> do { L \<leftarrow> lists s l; Some (if 0 < size_l L then 0 else 1) })"

definition clist_head :: "addr option \<Rightarrow> 'a mem \<Rightarrow> addr option option" where
  "clist_head list s =
     (case list of None \<Rightarrow> Some None | Some l \<Rightarrow> do { L \<leftarrow> lists s l; Some (head L) })"

definition clist_tail :: "addr option \<Rightarrow> 'a mem \<Rightarrow> addr option option" where
  "clist_tail list s =
     (case list of None \<Rightarrow> Some None | Some l \<Rightarrow> do { L \<leftarrow> lists s l; Some (tail L) })"

section \<open>The index resolver\<close>

text \<open>The two walks of \<^verbatim>\<open>clist_go\<close>: \<^verbatim>\<open>while (steps-- > 0U) node = node->next\<close>, and the
  same along \<^verbatim>\<open>prev\<close>.\<close>

fun walk_next :: "'a mem \<Rightarrow> nat \<Rightarrow> addr option \<Rightarrow> addr option option" where
  "walk_next s 0 p = Some p"
| "walk_next s (Suc k) p = do { nd \<leftarrow> node_at s p; walk_next s k (nxt nd) }"

fun walk_prev :: "'a mem \<Rightarrow> nat \<Rightarrow> addr option \<Rightarrow> addr option option" where
  "walk_prev s 0 p = Some p"
| "walk_prev s (Suc k) p = do { nd \<leftarrow> node_at s p; walk_prev s k (prv nd) }"

text \<open>
  The anchor chosen by lines 311 to 350 of the source: which field the walk starts from,
  the number of steps and the direction (\<open>0\<close> along \<^verbatim>\<open>next\<close>, \<open>-1\<close> along \<^verbatim>\<open>prev\<close>). The
  subtractions are guarded by the comparisons before them and by \<open>idx < len\<close>, so none
  wraps.
\<close>

datatype anchor = Head | Tail | Cache

definition go_select :: "clist \<Rightarrow> nat \<Rightarrow> anchor \<times> nat \<times> int" where
  "go_select L idx =
     (let len = size_l L in
      if flags L AND 2 \<noteq> 0 then
        (let cidx = ruly L in
         if idx \<ge> cidx then
           (if idx - cidx \<le> len - idx - 1 then (Cache, idx - cidx, 0)
            else (Tail, len - idx - 1, -1))
         else
           (if idx \<le> cidx - idx then (Head, idx, 0)
            else (Cache, cidx - idx, -1)))
      else
        (if idx > len div 2 then (Tail, len - idx - 1, -1)
         else (Head, idx, 0)))"

definition anchor_ptr :: "clist \<Rightarrow> anchor \<Rightarrow> addr option" where
  "anchor_ptr L a = (case a of Head \<Rightarrow> head L | Tail \<Rightarrow> tail L | Cache \<Rightarrow> rul L)"

definition clist_go :: "addr option \<Rightarrow> nat \<Rightarrow> 'a mem \<Rightarrow> (addr option \<times> 'a mem) option" where
  "clist_go list idx s =
     (case list of
        None \<Rightarrow> Some (None, s)
      | Some l \<Rightarrow> do {
          L \<leftarrow> lists s l;
          let len = size_l L;
          if idx < len then
            if idx = 0 then Some (head L, s)
            else if idx = 1 then do { h \<leftarrow> node_at s (head L); Some (nxt h, s) }
            else if idx = len - 1 then Some (tail L, s)
            else if idx = len - 2 then do { t \<leftarrow> node_at s (tail L); Some (prv t, s) }
            else do {
              let (anc, steps, direction) = go_select L idx;
              node \<leftarrow> (if direction = 0 then walk_next s steps (anchor_ptr L anc)
                        else walk_prev s steps (anchor_ptr L anc));
              s' \<leftarrow> upd_list l (\<lambda>L. L\<lparr>rul := node, ruly := idx, flags := flags L OR 2\<rparr>) s;
              Some (node, s')
            }
          else Some (None, s)
        })"

text \<open>\<^verbatim>\<open>clist_get\<close> returns \<^verbatim>\<open>p + 1\<close>, the address of the payload of node \<open>p\<close>: the model
  returns the node's address, and the payload is read with \<open>payload_at\<close>.\<close>

definition clist_get :: "addr option \<Rightarrow> nat \<Rightarrow> 'a mem \<Rightarrow> (addr option \<times> 'a mem) option" where
  "clist_get list idx s = clist_go list idx s"

definition payload_at :: "'a mem \<Rightarrow> addr option \<Rightarrow> 'a option" where
  "payload_at s p = (case node_at s p of None \<Rightarrow> None | Some nd \<Rightarrow> payload nd)"

definition clist_get_from_node :: "addr option \<Rightarrow> addr option" where
  "clist_get_from_node node = node"

definition clist_set :: "addr option \<Rightarrow> nat \<Rightarrow> 'a option \<Rightarrow> 'a mem \<Rightarrow> 'a mem option" where
  "clist_set list idx pl s =
     (case pl of
        None \<Rightarrow> Some s
      | Some v \<Rightarrow> do {
          (p, s1) \<leftarrow> clist_go list idx s;
          if p \<noteq> None then upd_node p (\<lambda>nd. nd\<lparr>payload := Some v\<rparr>) s1 else Some s1
        })"

section \<open>The mutators\<close>

definition vnut_cl_insert_node :: "addr \<Rightarrow> nat \<Rightarrow> addr \<Rightarrow> 'a mem \<Rightarrow> 'a mem option" where
  "vnut_cl_insert_node l idx node s = do {
     L0 \<leftarrow> lists s l;
     (next, s1) \<leftarrow> (if idx < size_l L0 then clist_go (Some l) idx s else Some (None, s));
     (prev0, s2) \<leftarrow>
        (if idx = 0 then do {
           s' \<leftarrow> upd_list l (\<lambda>L. L\<lparr>head := Some node\<rparr>) s1;
           Some (None, s')
         }
         else do {
           (p, s') \<leftarrow> clist_go (Some l) (idx - 1) s1;
           s'' \<leftarrow> upd_node p (\<lambda>n. n\<lparr>nxt := Some node\<rparr>) s';
           Some (p, s'')
         });
     (prev, s3) \<leftarrow>
        (if next \<noteq> None then do {
           nn \<leftarrow> node_at s2 next;
           s' \<leftarrow> upd_node next (\<lambda>n. n\<lparr>prv := Some node\<rparr>) s2;
           Some (prv nn, s')
         }
         else do {
           s' \<leftarrow> upd_list l (\<lambda>L. L\<lparr>tail := Some node\<rparr>) s2;
           Some (prev0, s')
         });
     s4 \<leftarrow> upd_node (Some node) (\<lambda>n. n\<lparr>nxt := next, prv := prev\<rparr>) s3;
     L4 \<leftarrow> lists s4 l;
     s5 \<leftarrow> upd_list l (\<lambda>L. L\<lparr>size_l := sz_add (size_l L) 1\<rparr>) s4;
     if idx < size_l L4 \<and> 0 < idx
     then upd_list l (\<lambda>L. L\<lparr>rul := Some node, ruly := idx, flags := flags L OR 2\<rparr>) s5
     else if idx = 0 then upd_list l (\<lambda>L. L\<lparr>ruly := sz_add (ruly L) 1\<rparr>) s5
     else Some s5
   }"

definition clist_insert :: "addr option \<Rightarrow> nat \<Rightarrow> 'a option \<Rightarrow> 'a mem \<Rightarrow> (int \<times> 'a mem) option" where
  "clist_insert list idx pl s =
     (case list of
        None \<Rightarrow> Some (EXIT_FAILURE, s)
      | Some l \<Rightarrow> do {
          L \<leftarrow> lists s l;
          if idx \<le> size_l L then do {
            (node, s1) \<leftarrow>
               (if 0 < zskb L then do {
                  nd \<leftarrow> node_at s (pkb L);
                  s' \<leftarrow> upd_list l (\<lambda>L. L\<lparr>pkb := nxt nd, zskb := zskb L - 1\<rparr>) s;
                  Some (pkb L, s')
                }
                else Some (malloc_node (sz_add sizeof_node (type_size L)) s));
            case node of
              None \<Rightarrow> Some (EXIT_FAILURE, s1)
            | Some n \<Rightarrow> do {
                s2 \<leftarrow> (case pl of None \<Rightarrow> Some s1
                       | Some v \<Rightarrow> upd_node node (\<lambda>nd. nd\<lparr>payload := Some v\<rparr>) s1);
                s3 \<leftarrow> vnut_cl_insert_node l idx n s2;
                Some (EXIT_SUCCESS, s3)
              }
          }
          else Some (EXIT_FAILURE, s)
        })"

text \<open>The loop of \<^verbatim>\<open>clist_erase\<close>, \<open>count\<close> iterations: each reads \<^verbatim>\<open>node->next\<close>, hands the
  payload to \<^verbatim>\<open>free\<close> in free-on-remove mode (\<open>free_ptr\<close>, which has no value for an unwritten
  or an already freed payload) and pushes the node on the pool. The payload stays in the
  node.\<close>

fun erase_loop :: "addr \<Rightarrow> nat \<Rightarrow> addr option \<Rightarrow> 'a mem \<Rightarrow> 'a mem option" where
  "erase_loop l 0 node s = Some s"
| "erase_loop l (Suc n) node s = do {
     nd \<leftarrow> node_at s node;
     L \<leftarrow> lists s l;
     s1 \<leftarrow> (if flags L AND CLIST_PAYLOAD_FREE \<noteq> 0 then free_ptr (payload nd) s else Some s);
     s2 \<leftarrow> upd_node node (\<lambda>n. n\<lparr>nxt := pkb L\<rparr>) s1;
     s3 \<leftarrow> upd_list l (\<lambda>L. L\<lparr>pkb := node, zskb := sz_add (zskb L) 1\<rparr>) s2;
     erase_loop l n (nxt nd) s3
   }"

definition clist_erase :: "addr option \<Rightarrow> nat \<Rightarrow> nat \<Rightarrow> 'a mem \<Rightarrow> 'a mem option" where
  "clist_erase list idx count s =
     (case list of
        None \<Rightarrow> Some s
      | Some l \<Rightarrow> do {
          L \<leftarrow> lists s l;
          if sz_add idx count \<le> size_l L \<and> 0 < count then do {
            (node, s1) \<leftarrow> clist_go list idx s;
            nd \<leftarrow> node_at s1 node;
            let prev = prv nd;
            (lastn, s2) \<leftarrow> clist_go list (sz_sub (sz_add idx count) 1) s1;
            ln \<leftarrow> node_at s2 lastn;
            let next = nxt ln;
            s3 \<leftarrow> erase_loop l count node s2;
            s4 \<leftarrow> (if prev \<noteq> None then upd_node prev (\<lambda>n. n\<lparr>nxt := next\<rparr>) s3
                   else upd_list l (\<lambda>L. L\<lparr>head := next\<rparr>) s3);
            s5 \<leftarrow> (if next \<noteq> None then upd_node next (\<lambda>n. n\<lparr>prv := prev\<rparr>) s4
                   else upd_list l (\<lambda>L. L\<lparr>tail := prev\<rparr>) s4);
            s6 \<leftarrow> upd_list l (\<lambda>L. L\<lparr>size_l := sz_sub (size_l L) count\<rparr>) s5;
            L6 \<leftarrow> lists s6 l;
            if 0 < idx \<and> 1 < sz_sub (size_l L6) idx
            then upd_list l (\<lambda>L. L\<lparr>rul := next, ruly := idx, flags := flags L OR 2\<rparr>) s6
            else if idx \<le> ruly L6 then upd_list l (\<lambda>L. L\<lparr>flags := flags L AND 1\<rparr>) s6
            else Some s6
          }
          else Some s
        })"

text \<open>The growing loop of \<^verbatim>\<open>clist_resize\<close>: \<open>remaining\<close> iterations while \<open>ok\<close> is
  \<^verbatim>\<open>EXIT_SUCCESS\<close>, each appending at the current size.\<close>

fun resize_loop :: "addr \<Rightarrow> nat \<Rightarrow> 'a option \<Rightarrow> int \<Rightarrow> 'a mem \<Rightarrow> (int \<times> 'a mem) option" where
  "resize_loop l 0 elem ok s = Some (ok, s)"
| "resize_loop l (Suc n) elem ok s =
     (if ok = EXIT_SUCCESS then do {
        L \<leftarrow> lists s l;
        (ok', s') \<leftarrow> clist_insert (Some l) (size_l L) elem s;
        resize_loop l n elem ok' s'
      }
      else Some (ok, s))"

definition clist_resize :: "addr option \<Rightarrow> nat \<Rightarrow> 'a option \<Rightarrow> 'a mem \<Rightarrow> (int \<times> 'a mem) option" where
  "clist_resize list new_size elem s =
     (case list of
        None \<Rightarrow> Some (EXIT_FAILURE, s)
      | Some l \<Rightarrow> do {
          L \<leftarrow> lists s l;
          let old_size = size_l L;
          if new_size \<noteq> old_size then
            if new_size < old_size then do {
              s1 \<leftarrow> clist_erase list new_size (old_size - new_size) s;
              L1 \<leftarrow> lists s1 l;
              s2 \<leftarrow> (if new_size \<le> ruly L1
                     then upd_list l (\<lambda>L. L\<lparr>flags := flags L AND 1\<rparr>) s1 else Some s1);
              Some (EXIT_SUCCESS, s2)
            }
            else resize_loop l (new_size - old_size) elem EXIT_SUCCESS s
          else Some (EXIT_SUCCESS, s)
        })"

definition clist_push_front :: "addr option \<Rightarrow> 'a option \<Rightarrow> 'a mem \<Rightarrow> (int \<times> 'a mem) option" where
  "clist_push_front list pl s = clist_insert list 0 pl s"

definition clist_push_back :: "addr option \<Rightarrow> 'a option \<Rightarrow> 'a mem \<Rightarrow> (int \<times> 'a mem) option" where
  "clist_push_back list pl s =
     (case list of
        None \<Rightarrow> Some (EXIT_FAILURE, s)
      | Some l \<Rightarrow> do { L \<leftarrow> lists s l; clist_insert list (size_l L) pl s })"

definition clist_pop_front :: "addr option \<Rightarrow> 'a mem \<Rightarrow> 'a mem option" where
  "clist_pop_front list s = clist_erase list 0 1 s"

definition clist_pop_back :: "addr option \<Rightarrow> 'a mem \<Rightarrow> 'a mem option" where
  "clist_pop_back list s =
     (case list of
        None \<Rightarrow> Some s
      | Some l \<Rightarrow> do { L \<leftarrow> lists s l; clist_erase list (sz_sub (size_l L) 1) 1 s })"

definition clist_clear :: "addr option \<Rightarrow> 'a mem \<Rightarrow> 'a mem option" where
  "clist_clear list s =
     (case list of
        None \<Rightarrow> Some s
      | Some l \<Rightarrow> do { L \<leftarrow> lists s l; clist_erase list 0 (size_l L) s })"

text \<open>The loop of \<^verbatim>\<open>clist_shrink_to_fit\<close> runs until it meets \<^verbatim>\<open>NULL\<close>, freeing each node
  after reading its \<^verbatim>\<open>next\<close>; a run that does not return has the value \<open>None\<close>.\<close>

partial_function (option) shrink_loop :: "addr option \<Rightarrow> 'a mem \<Rightarrow> 'a mem option" where
  "shrink_loop node s =
     (case node of
        None \<Rightarrow> Some s
      | Some a \<Rightarrow>
          (case nodes s a of
             None \<Rightarrow> None
           | Some nd \<Rightarrow> shrink_loop (nxt nd) (s\<lparr>nodes := (nodes s)(a := None)\<rparr>)))"

declare shrink_loop.simps [code]

definition clist_shrink_to_fit :: "addr option \<Rightarrow> 'a mem \<Rightarrow> 'a mem option" where
  "clist_shrink_to_fit list s =
     (case list of
        None \<Rightarrow> Some s
      | Some l \<Rightarrow> do {
          L \<leftarrow> lists s l;
          s1 \<leftarrow> shrink_loop (pkb L) s;
          upd_list l (\<lambda>L. L\<lparr>pkb := None, zskb := 0\<rparr>) s1
        })"

definition clist_destroy :: "addr option \<Rightarrow> 'a mem \<Rightarrow> 'a mem option" where
  "clist_destroy list s = do { s1 \<leftarrow> clist_clear list s; clist_shrink_to_fit list s1 }"

text \<open>\<^verbatim>\<open>clist_delete\<close> takes a pointer to the caller's list pointer: \<open>None\<close> is a \<^verbatim>\<open>NULL\<close>
  \<open>pList\<close>, \<open>Some p\<close> a variable that holds \<open>p\<close>. The value returned is the variable
  afterwards.\<close>

definition clist_delete :: "addr option option \<Rightarrow> 'a mem \<Rightarrow> (addr option option \<times> 'a mem) option" where
  "clist_delete pList s =
     (case pList of
        None \<Rightarrow> Some (None, s)
      | Some None \<Rightarrow> Some (Some None, s)
      | Some (Some l) \<Rightarrow> do {
          s1 \<leftarrow> clist_destroy (Some l) s;
          L \<leftarrow> lists s1 l;
          Some (Some None, s1\<lparr>lists := (lists s1)(l := None)\<rparr>)
        })"

text \<open>
  Callbacks. A visitor of \<^verbatim>\<open>clist_foreach\<close> gets the address of the payload and may write
  it: it maps the payload and its own state \<open>'c\<close> to the new payload and state. A
  predicate of \<^verbatim>\<open>clist_filter\<close> reads the payload and returns an \<^verbatim>\<open>int\<close>; what else it
  does is threaded through its state \<open>'c\<close>, so the order and the number of its calls can
  be observed. A \<^verbatim>\<open>NULL\<close> function pointer is \<open>None\<close>.
\<close>

partial_function (option) foreach_loop ::
  "('a option \<Rightarrow> 'c \<Rightarrow> 'a option \<times> 'c) \<Rightarrow> addr option \<Rightarrow> 'c \<Rightarrow> 'a mem \<Rightarrow> ('c \<times> 'a mem) option" where
  "foreach_loop f node env s =
     (case node of
        None \<Rightarrow> Some (env, s)
      | Some a \<Rightarrow>
          (case nodes s a of
             None \<Rightarrow> None
           | Some nd \<Rightarrow>
               foreach_loop f (nxt nd) (snd (f (payload nd) env))
                 (s\<lparr>nodes := (nodes s)(a \<mapsto> nd\<lparr>payload := fst (f (payload nd) env)\<rparr>)\<rparr>)))"

declare foreach_loop.simps [code]

definition clist_foreach ::
  "addr option \<Rightarrow> ('a option \<Rightarrow> 'c \<Rightarrow> 'a option \<times> 'c) option \<Rightarrow> 'c \<Rightarrow> 'a mem \<Rightarrow> ('c \<times> 'a mem) option" where
  "clist_foreach list f env s =
     (case list of
        None \<Rightarrow> Some (env, s)
      | Some l \<Rightarrow>
          (case f of
             None \<Rightarrow> Some (env, s)
           | Some g \<Rightarrow> do { L \<leftarrow> lists s l; foreach_loop g (head L) env s }))"

text \<open>The loop of \<^verbatim>\<open>clist_filter\<close>, \<open>len\<close> iterations with the counters \<open>i\<close> (up) and \<open>idx\<close>
  (down); it returns \<open>del_idx\<close>.\<close>

fun filter_loop ::
  "addr \<Rightarrow> ('a option \<Rightarrow> 'c \<Rightarrow> int \<times> 'c) \<Rightarrow> nat \<Rightarrow> nat \<Rightarrow> nat \<Rightarrow> nat \<Rightarrow> 'c \<Rightarrow> 'a mem
     \<Rightarrow> (nat \<times> 'c \<times> 'a mem) option" where
  "filter_loop l f 0 i idx del_idx env s = Some (del_idx, env, s)"
| "filter_loop l f (Suc n) i idx del_idx env s = do {
     (p, s1) \<leftarrow> clist_go (Some l) idx s;
     nd \<leftarrow> node_at s1 p;
     let r = f (payload nd) env;
     (del', s2) \<leftarrow> (if fst r = 0 then do { s' \<leftarrow> clist_erase (Some l) idx 1 s1; Some (i, s') }
                   else Some (del_idx, s1));
     filter_loop l f n (sz_add i 1) (sz_sub idx 1) del' (snd r) s2
   }"

definition clist_filter ::
  "addr option \<Rightarrow> ('a option \<Rightarrow> 'c \<Rightarrow> int \<times> 'c) option \<Rightarrow> 'c \<Rightarrow> 'a mem \<Rightarrow> ('c \<times> 'a mem) option" where
  "clist_filter list f env s =
     (case list of
        None \<Rightarrow> Some (env, s)
      | Some l \<Rightarrow>
          (case f of
             None \<Rightarrow> Some (env, s)
           | Some g \<Rightarrow> do {
               L \<leftarrow> lists s l;
               let len = size_l L;
               (del_idx, env', s1) \<leftarrow> filter_loop l g len 0 (sz_sub len 1) len env s;
               L1 \<leftarrow> lists s1 l;
               s2 \<leftarrow> (if del_idx \<le> ruly L1
                      then upd_list l (\<lambda>L. L\<lparr>flags := flags L AND 1\<rparr>) s1 else Some s1);
               Some (env', s2)
             }))"

definition clist_splice ::
  "addr option \<Rightarrow> nat \<Rightarrow> nat \<Rightarrow> addr option \<Rightarrow> nat \<Rightarrow> 'a mem \<Rightarrow> 'a mem option" where
  "clist_splice source idx count dest pos s =
     (case source of
        None \<Rightarrow> Some s
      | Some src \<Rightarrow>
          (case dest of
             None \<Rightarrow> Some s
           | Some dst \<Rightarrow>
             if src = dst then Some s
             else do {
               S \<leftarrow> lists s src;
               D \<leftarrow> lists s dst;
               if sz_add idx count \<le> size_l S \<and> pos \<le> size_l D
                  \<and> type_size S = type_size D \<and> flags S AND 1 = flags D AND 1 \<and> 0 < count
               then do {
                 (first, s1) \<leftarrow> clist_go source idx s;
                 fn \<leftarrow> node_at s1 first;
                 (last, s2) \<leftarrow> clist_go source (sz_sub (sz_add idx count) 1) s1;
                 ln \<leftarrow> node_at s2 last;
                 let prev = prv fn;
                 let next = nxt ln;
                 s3 \<leftarrow> (if idx = 0 then upd_list src (\<lambda>L. L\<lparr>head := next\<rparr>) s2
                        else upd_node prev (\<lambda>n. n\<lparr>nxt := next\<rparr>) s2);
                 s4 \<leftarrow> (if next = None then upd_list src (\<lambda>L. L\<lparr>tail := prev\<rparr>) s3
                        else upd_node next (\<lambda>n. n\<lparr>prv := prev\<rparr>) s3);
                 s5 \<leftarrow> upd_list src (\<lambda>L. L\<lparr>size_l := sz_sub (size_l L) count\<rparr>) s4;
                 S5 \<leftarrow> lists s5 src;
                 s6 \<leftarrow> (if idx \<le> ruly S5
                        then upd_list src (\<lambda>L. L\<lparr>flags := flags L AND 1\<rparr>) s5 else Some s5);
                 (dprev, s7) \<leftarrow> (if pos = 0 then Some (None, s6) else clist_go dest (pos - 1) s6);
                 D7 \<leftarrow> lists s7 dst;
                 (dnext, s8) \<leftarrow> (if pos < size_l D7 then clist_go dest pos s7 else Some (None, s7));
                 s9 \<leftarrow> upd_node first (\<lambda>n. n\<lparr>prv := dprev\<rparr>) s8;
                 s10 \<leftarrow> upd_node last (\<lambda>n. n\<lparr>nxt := dnext\<rparr>) s9;
                 s11 \<leftarrow> (if dprev \<noteq> None then upd_node dprev (\<lambda>n. n\<lparr>nxt := first\<rparr>) s10
                         else upd_list dst (\<lambda>L. L\<lparr>head := first\<rparr>) s10);
                 s12 \<leftarrow> (if dnext \<noteq> None then upd_node dnext (\<lambda>n. n\<lparr>prv := last\<rparr>) s11
                         else upd_list dst (\<lambda>L. L\<lparr>tail := last\<rparr>) s11);
                 s13 \<leftarrow> upd_list dst (\<lambda>L. L\<lparr>size_l := sz_add (size_l L) count\<rparr>) s12;
                 D13 \<leftarrow> lists s13 dst;
                 if pos \<le> ruly D13
                 then upd_list dst (\<lambda>L. L\<lparr>flags := flags L AND 1\<rparr>) s13 else Some s13
               }
               else Some s
             }))"

section \<open>Well-formed lists\<close>

text \<open>
  \<open>path fld h p as q\<close>: following the field \<open>fld\<close> from pointer \<open>p\<close> visits exactly the
  allocated nodes \<open>as\<close>, in this order, and ends with the pointer \<open>q\<close>.
\<close>

fun path :: "('a node \<Rightarrow> addr option) \<Rightarrow> (addr \<Rightarrow> 'a node option) \<Rightarrow> addr option \<Rightarrow> addr list \<Rightarrow> addr option \<Rightarrow> bool" where
  "path fld h p [] q = (p = q)"
| "path fld h p (a # as) q =
     (p = Some a \<and> (case h a of None \<Rightarrow> False | Some nd \<Rightarrow> path fld h (fld nd) as q))"

text \<open>
  A list object \<open>L\<close> is well formed over the heap \<open>h\<close>, with chain \<open>ns\<close> and pool \<open>ps\<close>,
  when \<open>ns\<close> is the \<^verbatim>\<open>next\<close> path from \<^verbatim>\<open>head\<close> to \<^verbatim>\<open>NULL\<close> and, reversed, the \<^verbatim>\<open>prev\<close> path
  from \<^verbatim>\<open>tail\<close> to \<^verbatim>\<open>NULL\<close>, \<open>ps\<close> is the \<^verbatim>\<open>next\<close> path of the pool, the two counters are
  the two lengths, no node occurs twice, every node address is a non-\<^verbatim>\<open>NULL\<close> 64-bit
  value, and the finger cache is sound (\<open>cache_ok\<close>): when the validity bit (bit 1 of
  \<^verbatim>\<open>flags\<close>) is set, \<^verbatim>\<open>ruly\<close> is an index of the chain and \<^verbatim>\<open>rul\<close> is the node at that index.
\<close>

definition valid_addr :: "addr \<Rightarrow> bool" where
  "valid_addr a = (0 < a \<and> a < SIZE_LIMIT)"

definition cache_ok :: "clist \<Rightarrow> addr list \<Rightarrow> bool" where
  "cache_ok L ns = (flags L AND 2 = 0 \<or> (ruly L < length ns \<and> rul L = Some (ns ! ruly L)))"

definition wf_L :: "(addr \<Rightarrow> 'a node option) \<Rightarrow> clist \<Rightarrow> addr list \<Rightarrow> addr list \<Rightarrow> bool" where
  "wf_L h L ns ps =
     (path nxt h (head L) ns None \<and> path prv h (tail L) (rev ns) None \<and> size_l L = length ns
      \<and> path nxt h (pkb L) ps None \<and> zskb L = length ps
      \<and> distinct (ns @ ps) \<and> list_all valid_addr (ns @ ps) \<and> cache_ok L ns)"

definition wf_list :: "'a mem \<Rightarrow> addr \<Rightarrow> addr list \<Rightarrow> addr list \<Rightarrow> bool" where
  "wf_list s l ns ps = (case lists s l of None \<Rightarrow> False | Some L \<Rightarrow> wf_L (nodes s) L ns ps)"

text \<open>What \<^verbatim>\<open>clist_go\<close> leaves in the list object when it resolves \<open>idx\<close> to \<open>p\<close>: the
  four shortcuts leave it as it is, every other resolution sets the cache.\<close>

definition go_cache :: "clist \<Rightarrow> nat \<Rightarrow> addr option \<Rightarrow> clist" where
  "go_cache L idx p =
     (if idx = 0 \<or> idx = 1 \<or> idx = size_l L - 1 \<or> idx = size_l L - 2 then L
      else L\<lparr>rul := p, ruly := idx, flags := flags L OR 2\<rparr>)"

definition first_or :: "addr list \<Rightarrow> addr option \<Rightarrow> addr option" where
  "first_or as q = (case as of [] \<Rightarrow> q | a # _ \<Rightarrow> Some a)"

definition heap_ok :: "'a mem \<Rightarrow> bool" where
  "heap_ok s = (0 < brk s \<and> (\<forall>a. brk s \<le> a \<longrightarrow> nodes s a = None))"

definition same_outside :: "'a mem \<Rightarrow> 'a mem \<Rightarrow> addr \<Rightarrow> addr set \<Rightarrow> bool" where
  "same_outside s s' l A =
     ((\<forall>l'. l' \<noteq> l \<longrightarrow> lists s' l' = lists s l') \<and> (\<forall>a. a \<notin> A \<longrightarrow> nodes s' a = nodes s a))"

text \<open>The node size of \<^verbatim>\<open>clist_insert\<close> does not wrap for the list at \<open>l\<close>.\<close>

definition node_fits :: "'a mem \<Rightarrow> addr \<Rightarrow> bool" where
  "node_fits s l =
     (case lists s l of None \<Rightarrow> False | Some L \<Rightarrow> sizeof_node + type_size L < SIZE_LIMIT)"

text \<open>The payloads \<open>vs\<close> can be removed from a list with the flags \<open>fl\<close> when the log of
  \<^verbatim>\<open>free\<close> is \<open>fr\<close>: the list is not in free-on-remove mode, or every payload is written,
  no two are the same pointer and none has been freed. \<open>frees_ok\<close> says so of the nodes
  \<open>as\<close> of the list at \<open>l\<close>.\<close>

definition can_free :: "32 word \<Rightarrow> 'a option list \<Rightarrow> 'a option list \<Rightarrow> bool" where
  "can_free fl fr vs =
     (fl AND CLIST_PAYLOAD_FREE = 0 \<or> (None \<notin> set vs \<and> distinct vs \<and> set vs \<inter> set fr = {}))"

definition frees_ok :: "'a mem \<Rightarrow> addr \<Rightarrow> addr list \<Rightarrow> bool" where
  "frees_ok s l as =
     (case lists s l of None \<Rightarrow> False
      | Some L \<Rightarrow> can_free (flags L) (freed s) (map (\<lambda>a. payload_at s (Some a)) as))"

fun run_inserts :: "addr \<Rightarrow> (nat \<times> 'a option) list \<Rightarrow> 'a mem \<Rightarrow> (int list \<times> 'a mem) option" where
  "run_inserts l [] s = Some ([], s)"
| "run_inserts l ((idx, pl) # ops) s = do {
     (r, s1) \<leftarrow> clist_insert (Some l) idx pl s;
     (rs, s2) \<leftarrow> run_inserts l ops s1;
     Some (r # rs, s2)
   }"

fun model_inserts :: "(nat \<times> 'a option) list \<Rightarrow> int list \<Rightarrow> 'a option list \<Rightarrow> 'a option list" where
  "model_inserts ((idx, pl) # ops) (r # rs) vs =
     model_inserts ops rs (if r = EXIT_SUCCESS then take idx vs @ pl # drop idx vs else vs)"
| "model_inserts ops rs vs = vs"

text \<open>The result codes of a run of inserts, from the size \<open>n\<close> of the chain, the size \<open>p\<close>
  of the pool and the allocator (\<open>b\<close> allocations left, next address \<open>k\<close>): an insert
  succeeds when its index is at most the size and a node is in the pool or can be
  allocated; it fails otherwise and changes nothing.\<close>

fun insert_codes :: "(nat \<times> 'a option) list \<Rightarrow> nat \<Rightarrow> nat \<Rightarrow> nat \<Rightarrow> nat \<Rightarrow> int list" where
  "insert_codes [] n p b k = []"
| "insert_codes ((idx, pl) # ops) n p b k =
     (if idx \<le> n \<and> 0 < p then EXIT_SUCCESS # insert_codes ops (n + 1) (p - 1) b k
      else if idx \<le> n \<and> 0 < b \<and> k < SIZE_LIMIT
      then EXIT_SUCCESS # insert_codes ops (n + 1) p (b - 1) (k + 1)
      else EXIT_FAILURE # insert_codes ops n p b k)"

definition payloads :: "'a mem \<Rightarrow> addr list \<Rightarrow> 'a option list" where
  "payloads s ns = map (\<lambda>a. payload_at s (Some a)) ns"

text \<open>What a run of a predicate over the elements \<open>as\<close>, given tail first, decides: the
  elements kept and those dropped, both in chain order, and the predicate's final state.\<close>

fun filter_run :: "('b \<Rightarrow> 'c \<Rightarrow> int \<times> 'c) \<Rightarrow> 'b list \<Rightarrow> 'c \<Rightarrow> 'b list \<times> 'b list \<times> 'c" where
  "filter_run f [] env = ([], [], env)"
| "filter_run f (a # as) env =
     (case filter_run f as (snd (f a env)) of
        (K, D, E) \<Rightarrow> if fst (f a env) = 0 then (K, D @ [a], E) else (K @ [a], D, E))"



text \<open>The heap \<open>h\<close> with the node that \<open>p\<close> points to, when there is one, changed by \<open>g\<close>.\<close>

definition updp :: "(addr \<Rightarrow> 'a node option) \<Rightarrow> addr option \<Rightarrow> ('a node \<Rightarrow> 'a node) \<Rightarrow> addr \<Rightarrow> 'a node option" where
  "updp h p g = (case p of None \<Rightarrow> h | Some b \<Rightarrow> h(b := map_option g (h b)))"

text \<open>The finger cache of the list at \<open>l\<close> is sound: when the validity bit is set, the
  cached index is below the size and the cached pointer is the node that \<open>ruly\<close> steps
  along \<^verbatim>\<open>next\<close> reach from the head.\<close>

definition cache_sound :: "'a mem \<Rightarrow> addr \<Rightarrow> bool" where
  "cache_sound s l =
     (case lists s l of None \<Rightarrow> False
      | Some L \<Rightarrow> flags L AND 2 \<noteq> 0 \<longrightarrow>
          ruly L < size_l L \<and> walk_next s (ruly L) (head L) = Some (rul L))"

text \<open>Two lists of one store, well-formed and without a common node.\<close>

definition pair_wf ::
  "'a mem \<Rightarrow> addr \<Rightarrow> addr list \<Rightarrow> addr list \<Rightarrow> addr \<Rightarrow> addr list \<Rightarrow> addr list \<Rightarrow> bool" where
  "pair_wf s l ns ps m ms qs =
     (heap_ok s \<and> wf_list s l ns ps \<and> wf_list s m ms qs \<and> set (ns @ ps) \<inter> set (ms @ qs) = {})"

section \<open>Concrete stores\<close>

text \<open>An uninitialised list object, and a store that holds one at address 100.\<close>

definition junk_list :: clist where
  "junk_list = \<lparr>head = Some 7, tail = Some 9, rul = Some 3, pkb = Some 4, type_size = 0,
                 size_l = 5, ruly = 77, zskb = 3, flags = 7\<rparr>"

definition raw_mem :: "nat mem" where
  "raw_mem = \<lparr>lists = Map.empty(100 \<mapsto> junk_list), nodes = Map.empty, brk = 1,
              budget = 16, mallocs = 0, freed = []\<rparr>"

text \<open>The empty list that \<^verbatim>\<open>clist_init(&l, 4, CLIST_PAYLOAD_IGNORE)\<close> leaves at address 100.\<close>

definition empty_list :: clist where
  "empty_list = \<lparr>head = None, tail = None, rul = Some 3, pkb = None, type_size = 4,
                  size_l = 0, ruly = 77, zskb = 0, flags = 0\<rparr>"

definition empty_mem :: "nat mem" where
  "empty_mem = \<lparr>lists = Map.empty(100 \<mapsto> empty_list), nodes = Map.empty, brk = 1,
                budget = 16, mallocs = 0, freed = []\<rparr>"

text \<open>A list of five nodes at the addresses 1 to 5, with the payloads 10 to 50 and the
  cache invalid.\<close>

definition five_list :: clist where
  "five_list = \<lparr>head = Some 1, tail = Some 5, rul = None, pkb = None, type_size = 4,
                 size_l = 5, ruly = 0, zskb = 0, flags = 0\<rparr>"

definition five_nodes :: "addr \<Rightarrow> nat node option" where
  "five_nodes = Map.empty(
     1 \<mapsto> \<lparr>nxt = Some 2, prv = None, payload = Some 10\<rparr>,
     2 \<mapsto> \<lparr>nxt = Some 3, prv = Some 1, payload = Some 20\<rparr>,
     3 \<mapsto> \<lparr>nxt = Some 4, prv = Some 2, payload = Some 30\<rparr>,
     4 \<mapsto> \<lparr>nxt = Some 5, prv = Some 3, payload = Some 40\<rparr>,
     5 \<mapsto> \<lparr>nxt = None, prv = Some 4, payload = Some 50\<rparr>)"

definition five_mem :: "nat mem" where
  "five_mem = \<lparr>lists = Map.empty(100 \<mapsto> five_list), nodes = five_nodes, brk = 6,
               budget = 16, mallocs = 0, freed = []\<rparr>"

text \<open>Two list objects for the choice of the anchor: nine elements with the cache valid
  at index 2, and ten elements with the cache invalid.\<close>

definition nine_cached :: clist where
  "nine_cached = \<lparr>head = Some 1, tail = Some 9, rul = Some 3, pkb = None, type_size = 4,
                   size_l = 9, ruly = 2, zskb = 0, flags = 2\<rparr>"

definition ten_uncached :: clist where
  "ten_uncached = \<lparr>head = Some 1, tail = Some 10, rul = None, pkb = None, type_size = 4,
                    size_l = 10, ruly = 0, zskb = 0, flags = 0\<rparr>"

text \<open>The candidates of the resolver: the steps from head, from tail and from the cached
  node to the index \<open>idx\<close>; \<open>cache_valid\<close> is the validity bit.\<close>

definition d_head :: "clist \<Rightarrow> nat \<Rightarrow> nat" where
  "d_head L idx = idx"

definition d_tail :: "clist \<Rightarrow> nat \<Rightarrow> nat" where
  "d_tail L idx = size_l L - 1 - idx"

definition d_cache :: "clist \<Rightarrow> nat \<Rightarrow> nat" where
  "d_cache L idx = (if ruly L \<le> idx then idx - ruly L else ruly L - idx)"

definition cache_valid :: "clist \<Rightarrow> bool" where
  "cache_valid L = (flags L AND 2 \<noteq> 0)"




text \<open>Two lists in one store: the five nodes of \<open>five_nodes\<close> at address 100, and a list of
  the two nodes 6 and 7, with the payloads 60 and 70, at address 200.\<close>

definition two_list :: clist where
  "two_list = \<lparr>head = Some 6, tail = Some 7, rul = None, pkb = None, type_size = 4,
                size_l = 2, ruly = 0, zskb = 0, flags = 0\<rparr>"

definition pair_mem :: "nat mem" where
  "pair_mem = \<lparr>lists = Map.empty(100 \<mapsto> five_list, 200 \<mapsto> two_list),
     nodes = five_nodes(6 \<mapsto> \<lparr>nxt = Some 7, prv = None, payload = Some 60\<rparr>,
                        7 \<mapsto> \<lparr>nxt = None, prv = Some 6, payload = Some 70\<rparr>),
     brk = 8, budget = 16, mallocs = 0, freed = []\<rparr>"

text \<open>Two stores on which the source has no defined behaviour: an empty list whose element
  size makes the node size of \<^verbatim>\<open>clist_insert\<close> wrap, and a list in free-on-remove mode with
  one node whose payload was never written.\<close>

definition wide_mem :: "nat mem" where
  "wide_mem = \<lparr>lists = Map.empty(100 \<mapsto> empty_list\<lparr>type_size := SIZE_LIMIT - 16\<rparr>),
               nodes = Map.empty, brk = 1, budget = 16, mallocs = 0, freed = []\<rparr>"

definition owner_mem :: "nat mem" where
  "owner_mem = \<lparr>lists = Map.empty(100 \<mapsto> \<lparr>head = Some 1, tail = Some 1, rul = None, pkb = None,
                   type_size = 8, size_l = 1, ruly = 0, zskb = 0, flags = 1\<rparr>),
                nodes = Map.empty(1 \<mapsto> \<lparr>nxt = None, prv = None, payload = None\<rparr>),
                brk = 2, budget = 16, mallocs = 0, freed = []\<rparr>"

text \<open>The store \<open>pair_mem\<close> after \<^verbatim>\<open>clist_get(&a, 2)\<close>, which sets the cache of the list at
  100 to node 3 and index 2, and the store that \<^verbatim>\<open>clist_splice(&a, 3, SIZE_MAX, &b, 0)\<close>
  leaves from there.\<close>

definition cached_mem :: "nat mem" where
  "cached_mem = \<lparr>lists = Map.empty(
       100 \<mapsto> \<lparr>head = Some 1, tail = Some 5, rul = Some 3, pkb = None, type_size = 4,
               size_l = 5, ruly = 2, zskb = 0, flags = 2\<rparr>,
       200 \<mapsto> two_list),
     nodes = five_nodes(6 \<mapsto> \<lparr>nxt = Some 7, prv = None, payload = Some 60\<rparr>,
                        7 \<mapsto> \<lparr>nxt = None, prv = Some 6, payload = Some 70\<rparr>),
     brk = 8, budget = 16, mallocs = 0, freed = []\<rparr>"

definition stale_mem :: "nat mem" where
  "stale_mem = \<lparr>lists = Map.empty(
       100 \<mapsto> \<lparr>head = Some 1, tail = Some 5, rul = Some 3, pkb = None, type_size = 4,
               size_l = 6, ruly = 2, zskb = 0, flags = 2\<rparr>,
       200 \<mapsto> \<lparr>head = Some 4, tail = Some 7, rul = None, pkb = None, type_size = 4,
               size_l = 1, ruly = 0, zskb = 0, flags = 0\<rparr>),
     nodes = Map.empty(
       1 \<mapsto> \<lparr>nxt = Some 2, prv = None, payload = Some 10\<rparr>,
       2 \<mapsto> \<lparr>nxt = Some 6, prv = Some 1, payload = Some 20\<rparr>,
       3 \<mapsto> \<lparr>nxt = Some 3, prv = Some 3, payload = Some 30\<rparr>,
       4 \<mapsto> \<lparr>nxt = Some 5, prv = None, payload = Some 40\<rparr>,
       5 \<mapsto> \<lparr>nxt = None, prv = Some 4, payload = Some 50\<rparr>,
       6 \<mapsto> \<lparr>nxt = Some 7, prv = Some 2, payload = Some 60\<rparr>,
       7 \<mapsto> \<lparr>nxt = None, prv = Some 6, payload = Some 70\<rparr>),
     brk = 8, budget = 16, mallocs = 0, freed = []\<rparr>"

section \<open>Construction\<close>

text \<open>The configuration that \<^verbatim>\<open>clist_init\<close> rejects: a zero element size, an ownership
  mode that is neither of the two defined values, or free-on-remove with an element size
  other than a pointer's.\<close>

definition malformed :: "nat \<Rightarrow> 32 word \<Rightarrow> bool" where
  "malformed tsz dynamic =
     (tsz = 0
      \<or> (dynamic \<noteq> CLIST_PAYLOAD_IGNORE \<and> dynamic \<noteq> CLIST_PAYLOAD_FREE)
      \<or> (dynamic = CLIST_PAYLOAD_FREE \<and> tsz \<noteq> sizeof_ptr))"

text \<open>The fields \<^verbatim>\<open>clist_init\<close> writes; \<^verbatim>\<open>rul\<close> and \<^verbatim>\<open>ruly\<close> keep what the object held.\<close>

definition init_fields :: "nat \<Rightarrow> 32 word \<Rightarrow> clist \<Rightarrow> clist" where
  "init_fields tsz dynamic L =
     L\<lparr>head := None, tail := None, pkb := None, type_size := tsz, size_l := 0, zskb := 0,
       flags := dynamic AND 1\<rparr>"

definition malloc_fails :: "'a mem \<Rightarrow> bool" where
  "malloc_fails s = (budget s = 0 \<or> SIZE_LIMIT \<le> brk s)"

lemma clist_init_eq:
  "lists s l = Some L \<Longrightarrow>
   clist_init (Some l) tsz dynamic s =
     (if malformed tsz dynamic then Some (EXIT_FAILURE, s)
      else Some (EXIT_SUCCESS, s\<lparr>lists := (lists s)(l \<mapsto> init_fields tsz dynamic L)\<rparr>))"
  by (auto simp: clist_init_def malformed_def upd_list_def init_fields_def
      CLIST_PAYLOAD_IGNORE_def CLIST_PAYLOAD_FREE_def)

text \<open>
  C9, as the claim states it, fails: construction also fails on a well-formed
  configuration, when \<^verbatim>\<open>malloc\<close> cannot provide the list object (\<^verbatim>\<open>clist_new\<close>) and when
  the list pointer is \<^verbatim>\<open>NULL\<close> (\<^verbatim>\<open>clist_init\<close>). Here the configuration is element size 4 with
  the mode \<^verbatim>\<open>CLIST_PAYLOAD_IGNORE\<close>.
\<close>

theorem construction_fails_on_wellformed_config:
  "\<not> malformed 4 CLIST_PAYLOAD_IGNORE
   \<and> clist_new 4 CLIST_PAYLOAD_IGNORE junk_list (raw_mem\<lparr>budget := 0\<rparr>)
       = Some (None, raw_mem\<lparr>budget := 0, mallocs := 1\<rparr>)
   \<and> clist_init None 4 CLIST_PAYLOAD_IGNORE raw_mem = Some (EXIT_FAILURE, raw_mem)"
  by (simp add: malformed_def clist_new_def clist_init_def malloc_list_def raw_mem_def
      CLIST_PAYLOAD_IGNORE_def CLIST_PAYLOAD_FREE_def sizeof_ptr_def)

text \<open>
  C9, amended: construction fails exactly when the configuration is malformed, or the
  list pointer given to \<^verbatim>\<open>clist_init\<close> is \<^verbatim>\<open>NULL\<close>, or the allocation of the list object in
  \<^verbatim>\<open>clist_new\<close> fails. A failed \<^verbatim>\<open>clist_init\<close> leaves the store as it was; a \<^verbatim>\<open>clist_new\<close>
  that fails on the configuration returns \<^verbatim>\<open>NULL\<close> and has freed the object again; a
  successful construction holds an empty list with the cache invalid.
\<close>

theorem construction_fails_iff:
  "clist_init None tsz dynamic s = Some (EXIT_FAILURE, s)
   \<and> (\<forall>L. lists s l = Some L \<longrightarrow>
        clist_init (Some l) tsz dynamic s =
          (if malformed tsz dynamic then Some (EXIT_FAILURE, s)
           else Some (EXIT_SUCCESS, s\<lparr>lists := (lists s)(l \<mapsto> init_fields tsz dynamic L)\<rparr>)))
   \<and> (\<exists>p s'. clist_new tsz dynamic junk s = Some (p, s')
        \<and> (p = None \<longleftrightarrow> malformed tsz dynamic \<or> malloc_fails s)
        \<and> (p = None \<longrightarrow> lists s' = (lists s)(brk s := None) \<or> lists s' = lists s)
        \<and> (\<forall>l'. p = Some l' \<longrightarrow> lists s' l' = Some (init_fields tsz dynamic junk)
               \<and> flags (init_fields tsz dynamic junk) AND 2 = 0))"
proof (intro conjI allI impI)
  show "clist_init None tsz dynamic s = Some (EXIT_FAILURE, s)"
    by (simp add: clist_init_def)
next
  fix L assume "lists s l = Some L"
  then show "clist_init (Some l) tsz dynamic s =
          (if malformed tsz dynamic then Some (EXIT_FAILURE, s)
           else Some (EXIT_SUCCESS, s\<lparr>lists := (lists s)(l \<mapsto> init_fields tsz dynamic L)\<rparr>))"
    by (rule clist_init_eq)
next
  have and_2: "(dynamic AND 1) AND 2 = 0"
    by (rule bit_eqI) (auto simp: bit_simps)
  show "\<exists>p s'. clist_new tsz dynamic junk s = Some (p, s')
        \<and> (p = None \<longleftrightarrow> malformed tsz dynamic \<or> malloc_fails s)
        \<and> (p = None \<longrightarrow> lists s' = (lists s)(brk s := None) \<or> lists s' = lists s)
        \<and> (\<forall>l'. p = Some l' \<longrightarrow> lists s' l' = Some (init_fields tsz dynamic junk)
               \<and> flags (init_fields tsz dynamic junk) AND 2 = 0)"
  proof (cases "malloc_fails s")
    case True
    then show ?thesis
      by (auto simp: clist_new_def malloc_list_def malloc_fails_def)
  next
    case False
    then have m: "malloc_list junk s =
        (Some (brk s), s\<lparr>lists := (lists s)(brk s \<mapsto> junk), brk := brk s + 1,
                        budget := budget s - 1, mallocs := mallocs s + 1\<rparr>)"
      by (auto simp: malloc_list_def malloc_fails_def)
    show ?thesis
      using False and_2
      by (auto simp: clist_new_def m clist_init_eq EXIT_SUCCESS_def EXIT_FAILURE_def
          init_fields_def)
  qed
qed

theorem construction_fails_iff_witness:
  "lists raw_mem 100 = Some junk_list
   \<and> clist_init (Some 100) 0 CLIST_PAYLOAD_IGNORE raw_mem = Some (EXIT_FAILURE, raw_mem)
   \<and> clist_init (Some 100) 4 CLIST_PAYLOAD_FREE raw_mem = Some (EXIT_FAILURE, raw_mem)
   \<and> clist_init (Some 100) 4 CLIST_PAYLOAD_IGNORE raw_mem
       = Some (EXIT_SUCCESS, raw_mem\<lparr>lists := (lists raw_mem)(100 \<mapsto> empty_list)\<rparr>)"
proof -
  have l: "lists raw_mem 100 = Some junk_list"
    by (simp add: raw_mem_def)
  have i: "init_fields 4 CLIST_PAYLOAD_IGNORE junk_list = empty_list"
    by (simp add: init_fields_def junk_list_def empty_list_def CLIST_PAYLOAD_IGNORE_def)
  have a: "malformed 0 CLIST_PAYLOAD_IGNORE" "malformed 4 CLIST_PAYLOAD_FREE"
    "\<not> malformed 4 CLIST_PAYLOAD_IGNORE"
    by (simp_all add: malformed_def CLIST_PAYLOAD_IGNORE_def CLIST_PAYLOAD_FREE_def
        sizeof_ptr_def)
  show ?thesis
    using construction_fails_iff [of 0 CLIST_PAYLOAD_IGNORE raw_mem 100 junk_list]
      construction_fails_iff [of 4 CLIST_PAYLOAD_FREE raw_mem 100 junk_list]
      construction_fails_iff [of 4 CLIST_PAYLOAD_IGNORE raw_mem 100 junk_list]
      l i a
    by simp
qed

section \<open>A NULL list handle\<close>

text \<open>
  C10: with a \<^verbatim>\<open>NULL\<close> list every public operation returns without touching the store:
  \<^verbatim>\<open>clist_size\<close> gives 0, \<^verbatim>\<open>clist_empty\<close> gives 1, head, tail, go and get give \<^verbatim>\<open>NULL\<close>, the
  inserting operations (and \<^verbatim>\<open>clist_init\<close>, \<^verbatim>\<open>clist_resize\<close>) give \<^verbatim>\<open>EXIT_FAILURE\<close>, and every
  mutator leaves the store as it was. For \<^verbatim>\<open>clist_splice\<close> either list may be the \<^verbatim>\<open>NULL\<close> one;
  for \<^verbatim>\<open>clist_delete\<close> the pointer itself or the variable it points to.
\<close>

theorem null_list_is_tolerated:
  "clist_size None s = Some 0
   \<and> clist_empty None s = Some 1
   \<and> clist_head None s = Some None
   \<and> clist_tail None s = Some None
   \<and> clist_go None idx s = Some (None, s)
   \<and> clist_get None idx s = Some (None, s)
   \<and> clist_init None tsz dynamic s = Some (EXIT_FAILURE, s)
   \<and> clist_insert None idx pl s = Some (EXIT_FAILURE, s)
   \<and> clist_push_front None pl s = Some (EXIT_FAILURE, s)
   \<and> clist_push_back None pl s = Some (EXIT_FAILURE, s)
   \<and> clist_resize None n pl s = Some (EXIT_FAILURE, s)
   \<and> clist_erase None idx count s = Some s
   \<and> clist_pop_front None s = Some s
   \<and> clist_pop_back None s = Some s
   \<and> clist_set None idx pl s = Some s
   \<and> clist_clear None s = Some s
   \<and> clist_splice None idx count dest pos s = Some s
   \<and> clist_splice source idx count None pos s = Some s
   \<and> clist_filter None f env s = Some (env, s)
   \<and> clist_foreach None g env s = Some (env, s)
   \<and> clist_shrink_to_fit None s = Some s
   \<and> clist_destroy None s = Some s
   \<and> clist_delete None s = Some (None, s)
   \<and> clist_delete (Some None) s = Some (Some None, s)"
  by (simp add: clist_size_def clist_empty_def clist_head_def clist_tail_def clist_go_def
      clist_get_def clist_init_def clist_insert_def clist_push_front_def clist_push_back_def
      clist_resize_def clist_erase_def clist_pop_front_def clist_pop_back_def clist_set_def
      clist_clear_def clist_splice_def clist_filter_def clist_foreach_def
      clist_shrink_to_fit_def clist_destroy_def clist_delete_def
      split: option.split)

section \<open>Bounds checks\<close>

text \<open>
  C2 fails on the code for \<^verbatim>\<open>clist_pop_back\<close> on an empty list: the index passed on is
  \<open>size - 1\<close>, which wraps to \<open>2 ^ 64 - 1\<close>; in \<^verbatim>\<open>clist_erase\<close> the sum \<open>idx + count\<close> wraps
  to 0, the bounds check \<open>idx + count \<le> size\<close> passes, \<^verbatim>\<open>clist_go\<close> returns \<^verbatim>\<open>NULL\<close> and
  \<^verbatim>\<open>node->prev\<close> dereferences it. The same happens to \<^verbatim>\<open>clist_erase\<close> called with that
  index directly, while \<^verbatim>\<open>clist_pop_front\<close> on the empty list is the no-op its comment
  promises.
\<close>

theorem pop_back_on_empty_list_faults:
  "clist_size (Some 100) empty_mem = Some 0
   \<and> clist_pop_back (Some 100) empty_mem = None
   \<and> clist_erase (Some 100) (2 ^ 64 - 1) 1 empty_mem = None
   \<and> clist_pop_front (Some 100) empty_mem = Some empty_mem"
  by (simp add: clist_size_def clist_pop_back_def clist_pop_front_def clist_erase_def
      clist_go_def empty_mem_def empty_list_def sz_sub_def sz_add_def SIZE_LIMIT_def
      node_at_def)

section \<open>Paths and the resolver\<close>

lemma path_append:
  "path f h p (xs @ ys) q = (\<exists>m. path f h p xs m \<and> path f h m ys q)"
  by (induction xs arbitrary: p) (auto split: option.splits)

lemma path_frame:
  "(\<And>a. a \<in> set as \<Longrightarrow> h' a = h a) \<Longrightarrow> path f h' p as q = path f h p as q"
  by (induction as arbitrary: p) (auto split: option.splits)

lemma path_upd_other:
  "a \<notin> set as \<Longrightarrow> path f (h(a := v)) p as q = path f h p as q"
  by (rule path_frame) auto

lemma path_alloc: "path f h p as q \<Longrightarrow> a \<in> set as \<Longrightarrow> h a \<noteq> None"
  by (induction as arbitrary: p) (auto split: option.splits)

lemma path_nth:
  "path f h p as q \<Longrightarrow> i < length as \<Longrightarrow>
   \<exists>nd. h (as ! i) = Some nd \<and> f nd = (if Suc i < length as then Some (as ! Suc i) else q)"
proof (induction as arbitrary: p i)
  case Nil
  then show ?case by simp
next
  case (Cons a as)
  show ?case
  proof (cases i)
    case 0
    with Cons.prems show ?thesis by (cases as) (auto split: option.splits)
  next
    case (Suc j)
    with Cons.prems Cons.IH [of _ j] show ?thesis by (auto split: option.splits)
  qed
qed

lemma path_first: "path f h p as q \<Longrightarrow> as \<noteq> [] \<Longrightarrow> p = Some (hd as)"
  by (cases as) auto

lemma path_first_nth: "path f h p as q \<Longrightarrow> 0 < length as \<Longrightarrow> p = Some (as ! 0)"
  by (cases as) auto

lemma path_rev_first:
  "path f h t (rev ns) q \<Longrightarrow> 0 < length ns \<Longrightarrow> t = Some (ns ! (length ns - 1))"
  using path_first [of f h t "rev ns" q] by (simp add: hd_rev last_conv_nth)

lemma prv_nth:
  assumes "path prv h t (rev ns) q" "i < length ns"
  shows "\<exists>nd. h (ns ! i) = Some nd \<and> prv nd = (if i = 0 then q else Some (ns ! (i - 1)))"
proof -
  let ?j = "length ns - 1 - i"
  have j: "?j < length (rev ns)" using assms(2) by simp
  from path_nth [OF assms(1) j] obtain nd where
    nd: "h (rev ns ! ?j) = Some nd"
        "prv nd = (if Suc ?j < length (rev ns) then Some (rev ns ! Suc ?j) else q)"
    by blast
  have a: "rev ns ! ?j = ns ! i" using assms(2) by (simp add: rev_nth)
  have b: "i \<noteq> 0 \<Longrightarrow> rev ns ! Suc ?j = ns ! (i - 1)"
    using assms(2) by (simp add: rev_nth Suc_diff_Suc)
  show ?thesis using nd a b assms(2) by (cases "i = 0") auto
qed

lemma walk_next_path:
  "path nxt (nodes s) p ns q \<Longrightarrow> i + k < length ns \<Longrightarrow>
   walk_next s k (Some (ns ! i)) = Some (Some (ns ! (i + k)))"
proof (induction k arbitrary: i)
  case 0
  then show ?case by simp
next
  case (Suc k)
  from path_nth [OF Suc.prems(1), of i] Suc.prems(2)
  obtain nd where "nodes s (ns ! i) = Some nd" "nxt nd = Some (ns ! Suc i)" by auto
  then show ?case using Suc.IH [of "Suc i"] Suc.prems by (simp add: node_at_def)
qed

lemma walk_prev_path:
  "path prv (nodes s) t (rev ns) q \<Longrightarrow> k \<le> i \<Longrightarrow> i < length ns \<Longrightarrow>
   walk_prev s k (Some (ns ! i)) = Some (Some (ns ! (i - k)))"
proof (induction k arbitrary: i)
  case 0
  then show ?case by simp
next
  case (Suc k)
  from prv_nth [OF Suc.prems(1), of i] Suc.prems
  obtain nd where "nodes s (ns ! i) = Some nd" "prv nd = Some (ns ! (i - 1))" by auto
  then show ?case using Suc.IH [of "i - 1"] Suc.prems by (simp add: node_at_def)
qed

lemma path_last:
  "path f h p as q \<Longrightarrow> as \<noteq> [] \<Longrightarrow> \<exists>nd. h (last as) = Some nd \<and> f nd = q"
  using path_nth [of f h p as q "length as - 1"] by (auto simp: last_conv_nth)

lemma go_select_walk:
  assumes "path nxt (nodes s) (head L) ns None" "path prv (nodes s) (tail L) (rev ns) None"
    "size_l L = length ns" "cache_ok L ns" "idx < length ns"
    "go_select L idx = (anc, steps, dir)"
  shows "(if dir = 0 then walk_next s steps (anchor_ptr L anc)
          else walk_prev s steps (anchor_ptr L anc)) = Some (Some (ns ! idx))"
proof -
  have pos: "0 < length ns" using assms(5) by linarith
  have hd: "head L = Some (ns ! 0)" by (rule path_first_nth [OF assms(1) pos])
  have tl: "tail L = Some (ns ! (length ns - 1))" by (rule path_rev_first [OF assms(2) pos])
  have w_head: "walk_next s idx (head L) = Some (Some (ns ! idx))"
    using walk_next_path [OF assms(1), of 0 idx] assms(5) hd by simp
  have w_tail: "walk_prev s (length ns - idx - 1) (tail L) = Some (Some (ns ! idx))"
    using walk_prev_path [OF assms(2), of "length ns - idx - 1" "length ns - 1"] assms(5) tl
    by simp
  have w_cf: "walk_next s (idx - ruly L) (rul L) = Some (Some (ns ! idx))"
    if "flags L AND 2 \<noteq> 0" "ruly L \<le> idx"
    using walk_next_path [OF assms(1), of "ruly L" "idx - ruly L"] assms(4,5) that
    by (simp add: cache_ok_def)
  have w_cb: "walk_prev s (ruly L - idx) (rul L) = Some (Some (ns ! idx))"
    if "flags L AND 2 \<noteq> 0" "idx < ruly L"
    using walk_prev_path [OF assms(2), of "ruly L - idx" "ruly L"] assms(4,5) that
    by (simp add: cache_ok_def)
  show ?thesis
    using assms(3,6) w_head w_tail w_cf w_cb
    by (auto simp: go_select_def anchor_ptr_def Let_def split: if_splits)
qed

lemma clist_go_wf:
  assumes "lists s l = Some L" "path nxt (nodes s) (head L) ns None"
    "path prv (nodes s) (tail L) (rev ns) None"
    "size_l L = length ns" "cache_ok L ns" "idx < length ns"
  shows "clist_go (Some l) idx s
         = Some (Some (ns ! idx), s\<lparr>lists := (lists s)(l \<mapsto> go_cache L idx (Some (ns ! idx)))\<rparr>)"
proof -
  have pos: "0 < length ns" using assms(6) by linarith
  have hd: "head L = Some (ns ! 0)" by (rule path_first_nth [OF assms(2) pos])
  have tl: "tail L = Some (ns ! (length ns - 1))" by (rule path_rev_first [OF assms(3) pos])
  have same: "s\<lparr>lists := (lists s)(l \<mapsto> L)\<rparr> = s" using assms(1) by (simp add: fun_upd_idem)
  consider "idx = 0" | "idx = 1" | "idx \<noteq> 0" "idx \<noteq> 1" "idx = length ns - 1"
    | "idx \<noteq> 0" "idx \<noteq> 1" "idx \<noteq> length ns - 1" "idx = length ns - 2"
    | "idx \<noteq> 0" "idx \<noteq> 1" "idx \<noteq> length ns - 1" "idx \<noteq> length ns - 2"
    by blast
  then show ?thesis
  proof cases
    case 1
    then show ?thesis using assms hd same by (simp add: clist_go_def go_cache_def)
  next
    case 2
    from path_nth [OF assms(2) pos] assms(6) 2 obtain nd where
      "nodes s (ns ! 0) = Some nd" "nxt nd = Some (ns ! 1)" by auto
    then show ?thesis using 2 assms hd same by (simp add: clist_go_def go_cache_def node_at_def)
  next
    case 3
    then show ?thesis using assms tl same by (simp add: clist_go_def go_cache_def)
  next
    case 4
    have "length ns - 1 < length ns" using pos by simp
    from prv_nth [OF assms(3) this] assms(6) 4 obtain nd where
      "nodes s (ns ! (length ns - 1)) = Some nd" "prv nd = Some (ns ! (length ns - 2))"
      by (auto simp: numeral_2_eq_2)
    then show ?thesis using 4 assms tl same
      by (simp add: clist_go_def go_cache_def node_at_def)
  next
    case 5
    obtain anc steps dir where g: "go_select L idx = (anc, steps, dir)"
      by (cases "go_select L idx") auto
    from go_select_walk [OF assms(2,3,4,5,6) g] show ?thesis
      using 5 assms g by (simp add: clist_go_def go_cache_def upd_list_def split: if_splits)
  qed
qed

lemma or2_and2: "((f :: 32 word) OR 2) AND 2 = 2"
  by (rule bit_eqI) (auto simp: bit_simps)

lemma or2_and1: "((f :: 32 word) OR 2) AND 1 = f AND 1"
  by (rule bit_eqI) (auto simp: bit_simps)

lemma and1_and2: "((f :: 32 word) AND 1) AND 2 = 0"
  by (rule bit_eqI) (auto simp: bit_simps)

lemma and1_and1: "((f :: 32 word) AND 1) AND 1 = f AND 1"
  by (rule bit_eqI) (auto simp: bit_simps)

lemma wf_five: "wf_list five_mem 100 [1, 2, 3, 4, 5] []"
  by (simp add: wf_list_def wf_L_def five_mem_def five_list_def five_nodes_def valid_addr_def
      cache_ok_def SIZE_LIMIT_def)

section \<open>What a resolution leaves in the cache\<close>

text \<open>
  C4, as the claim states it, fails: the four shortcuts return the node and leave the list
  object untouched. On the five-element list, whose cache is invalid, resolving index 0,
  1, size - 1 and size - 2 returns the right node and the cache is still invalid.
\<close>

theorem shortcut_leaves_cache_invalid:
  "clist_go (Some 100) 0 five_mem = Some (Some 1, five_mem)
   \<and> clist_go (Some 100) 1 five_mem = Some (Some 2, five_mem)
   \<and> clist_go (Some 100) 4 five_mem = Some (Some 5, five_mem)
   \<and> clist_go (Some 100) 3 five_mem = Some (Some 4, five_mem)
   \<and> map_option (\<lambda>L. flags L AND 2) (lists five_mem 100) = Some 0"
  by (simp add: clist_go_def five_mem_def five_list_def five_nodes_def node_at_def)

text \<open>
  C4, amended: a successful resolution of an index other than 0, 1, size - 1 and size - 2
  leaves the cache set to the resolved node and index with the validity bit set; a
  resolution of one of these four indices returns the node and leaves the list object,
  the cache included, as it was.
\<close>

theorem resolution_sets_cache:
  assumes "wf_list s l ns ps" "idx < length ns"
  shows "\<exists>L. lists s l = Some L \<and>
     (if idx = 0 \<or> idx = 1 \<or> idx = length ns - 1 \<or> idx = length ns - 2
      then clist_go (Some l) idx s = Some (Some (ns ! idx), s)
      else clist_go (Some l) idx s
             = Some (Some (ns ! idx),
                     s\<lparr>lists := (lists s)(l \<mapsto> L\<lparr>rul := Some (ns ! idx), ruly := idx,
                                                 flags := flags L OR 2\<rparr>)\<rparr>)
           \<and> (flags L OR 2) AND 2 \<noteq> 0)"
proof -
  from assms(1) obtain L where L: "lists s l = Some L" and w: "wf_L (nodes s) L ns ps"
    by (auto simp: wf_list_def split: option.splits)
  have same: "s\<lparr>lists := (lists s)(l \<mapsto> L)\<rparr> = s" using L by (simp add: fun_upd_idem)
  have go: "clist_go (Some l) idx s
         = Some (Some (ns ! idx), s\<lparr>lists := (lists s)(l \<mapsto> go_cache L idx (Some (ns ! idx)))\<rparr>)"
    using w assms(2) by (intro clist_go_wf [OF L]) (simp_all add: wf_L_def)
  have sz: "size_l L = length ns" using w by (simp add: wf_L_def)
  show ?thesis
    using L go same sz by (auto simp: go_cache_def or2_and2)
qed

theorem resolution_sets_cache_witness:
  "wf_list five_mem 100 [1, 2, 3, 4, 5] []
   \<and> clist_go (Some 100) 2 five_mem
       = Some (Some 3, five_mem\<lparr>lists := (lists five_mem)(100 \<mapsto> five_list\<lparr>rul := Some 3, ruly := 2, flags := 2\<rparr>)\<rparr>)"
proof -
  have l: "lists five_mem 100 = Some five_list" by (simp add: five_mem_def)
  have f: "flags five_list OR 2 = 2" by (simp add: five_list_def)
  show ?thesis
    using resolution_sets_cache [OF wf_five, of 2] wf_five l f by simp
qed

section \<open>The choice of the anchor\<close>

text \<open>
  C5, as the claim states it, fails twice. With nine elements and the cache valid at
  index 2, index 5 is three steps from the cache and three from tail: the resolver walks
  from the cache, so a tie is not decided against the cache. With ten elements and the
  cache invalid, index 5 is four steps from tail and the resolver walks five steps from
  head: the anchor is not one with the fewest steps.
\<close>

theorem anchor_not_fewest_nor_cache_last:
  "cache_valid nine_cached
   \<and> d_cache nine_cached 5 = 3 \<and> d_tail nine_cached 5 = 3
   \<and> go_select nine_cached 5 = (Cache, 3, 0)
   \<and> \<not> cache_valid ten_uncached
   \<and> d_tail ten_uncached 5 = 4
   \<and> go_select ten_uncached 5 = (Head, 5, 0)"
  by (simp add: cache_valid_def d_cache_def d_tail_def go_select_def nine_cached_def
      ten_uncached_def)

lemma go_select_valid:
  assumes "cache_valid L" "idx < size_l L" "ruly L < size_l L"
  shows "go_select L idx =
     (if ruly L \<le> idx
      then (if d_cache L idx \<le> d_tail L idx then (Cache, d_cache L idx, 0)
            else (Tail, d_tail L idx, -1))
      else (if d_head L idx \<le> d_cache L idx then (Head, d_head L idx, 0)
            else (Cache, d_cache L idx, -1)))"
  using assms by (simp add: go_select_def cache_valid_def d_cache_def d_tail_def d_head_def Let_def)

lemma go_select_invalid:
  assumes "\<not> cache_valid L" "idx < size_l L"
  shows "go_select L idx =
     (if size_l L div 2 < idx then (Tail, d_tail L idx, -1) else (Head, d_head L idx, 0))"
  using assms by (simp add: go_select_def cache_valid_def d_tail_def d_head_def Let_def)

text \<open>
  C5, amended: a resolution that no shortcut handles walks from head along \<^verbatim>\<open>next\<close>,
  from tail along \<^verbatim>\<open>prev\<close>, or, only when the cache is valid, from the cached node (along
  \<^verbatim>\<open>next\<close> when the index is at or after the cached index, else along \<^verbatim>\<open>prev\<close>); the walk
  follows one kind of link only and ends at the node of the index. When the cache is
  valid the anchor needs the fewest steps among the three candidates; the cache is taken
  on a tie with tail, and on a tie with head when the index is at or after the cached
  index, while head is taken on a tie with the cache when the index is before it. When
  the cache is invalid, head is taken exactly when \<open>idx \<le> size div 2\<close>, else tail, which
  is at most one step more than the nearer end.
\<close>

theorem anchor_choice:
  assumes "wf_list s l ns ps" "idx < length ns"
    "idx \<noteq> 0" "idx \<noteq> 1" "idx \<noteq> length ns - 1" "idx \<noteq> length ns - 2"
  shows "\<exists>L anc steps dir s'.
      lists s l = Some L \<and> go_select L idx = (anc, steps, dir)
    \<and> clist_go (Some l) idx s = Some (Some (ns ! idx), s')
    \<and> (if dir = 0 then walk_next s steps (anchor_ptr L anc)
        else walk_prev s steps (anchor_ptr L anc)) = Some (Some (ns ! idx))
    \<and> (anc = Head \<and> steps = d_head L idx \<and> dir = 0
        \<or> anc = Tail \<and> steps = d_tail L idx \<and> dir = -1
        \<or> anc = Cache \<and> cache_valid L \<and> steps = d_cache L idx
            \<and> dir = (if ruly L \<le> idx then 0 else -1))
    \<and> (if cache_valid L
        then steps \<le> d_head L idx \<and> steps \<le> d_tail L idx \<and> steps \<le> d_cache L idx
           \<and> (anc = Cache) = (if ruly L \<le> idx then d_cache L idx \<le> d_tail L idx
                               else d_cache L idx < d_head L idx)
        else (anc = Head) = (idx \<le> size_l L div 2)
           \<and> steps \<le> d_head L idx + 1 \<and> steps \<le> d_tail L idx + 1)"
proof -
  from assms(1) obtain L where L: "lists s l = Some L" and w: "wf_L (nodes s) L ns ps"
    by (auto simp: wf_list_def split: option.splits)
  have sz: "size_l L = length ns" and c: "cache_ok L ns"
    and p1: "path nxt (nodes s) (head L) ns None"
    and p2: "path prv (nodes s) (tail L) (rev ns) None"
    using w by (simp_all add: wf_L_def)
  obtain anc steps dir where g: "go_select L idx = (anc, steps, dir)"
    by (cases "go_select L idx") auto
  have walk: "(if dir = 0 then walk_next s steps (anchor_ptr L anc)
        else walk_prev s steps (anchor_ptr L anc)) = Some (Some (ns ! idx))"
    by (rule go_select_walk [OF p1 p2 sz c assms(2) g])
  have go: "\<exists>s'. clist_go (Some l) idx s = Some (Some (ns ! idx), s')"
    using clist_go_wf [OF L p1 p2 sz c assms(2)] by simp
  have i: "idx < size_l L" using assms(2) sz by simp
  have sel: "(anc = Head \<and> steps = d_head L idx \<and> dir = 0
        \<or> anc = Tail \<and> steps = d_tail L idx \<and> dir = -1
        \<or> anc = Cache \<and> cache_valid L \<and> steps = d_cache L idx
            \<and> dir = (if ruly L \<le> idx then 0 else -1))
    \<and> (if cache_valid L
        then steps \<le> d_head L idx \<and> steps \<le> d_tail L idx \<and> steps \<le> d_cache L idx
           \<and> (anc = Cache) = (if ruly L \<le> idx then d_cache L idx \<le> d_tail L idx
                               else d_cache L idx < d_head L idx)
        else (anc = Head) = (idx \<le> size_l L div 2)
           \<and> steps \<le> d_head L idx + 1 \<and> steps \<le> d_tail L idx + 1)"
  proof (cases "cache_valid L")
    case True
    then have r: "ruly L < size_l L" using c sz by (simp add: cache_ok_def cache_valid_def)
    show ?thesis
      using g True r i unfolding go_select_valid [OF True i r]
      by (auto simp: d_cache_def d_tail_def d_head_def split: if_splits)
  next
    case False
    show ?thesis
      using g False i unfolding go_select_invalid [OF False i]
      by (auto simp: d_tail_def d_head_def split: if_splits)
  qed
  show ?thesis using L g go walk sel by blast
qed

theorem anchor_choice_witness:
  "wf_list five_mem 100 [1, 2, 3, 4, 5] [] \<and> (2::nat) < length [1, 2, 3, 4, 5 :: nat]
   \<and> go_select five_list 2 = (Head, 2, 0)
   \<and> walk_next five_mem 2 (anchor_ptr five_list Head) = Some (Some 3)
   \<and> (\<exists>s'. clist_go (Some 100) 2 five_mem = Some (Some 3, s'))"
proof -
  have l: "lists five_mem 100 = Some five_list" by (simp add: five_mem_def)
  have g: "go_select five_list 2 = (Head, 2, 0)"
    by (simp add: go_select_def five_list_def)
  show ?thesis
    using anchor_choice [OF wf_five, of 2] wf_five l g by auto
qed

lemma first_or_simps [simp]: "first_or [] q = q" "first_or (a # as) q = Some a"
  by (simp_all add: first_or_def)

lemma first_or_append: "first_or (xs @ ys) q = first_or xs (first_or ys q)"
  by (cases xs) simp_all

lemma path_start: "path f h p as q \<Longrightarrow> p = first_or as q"
  by (cases as) auto

lemma path_cong:
  "(\<And>a. a \<in> set as \<Longrightarrow> map_option f (h' a) = map_option f (h a)) \<Longrightarrow>
   path f h' p as q = path f h p as q"
proof (induction as arbitrary: p)
  case Nil
  then show ?case by simp
next
  case (Cons a as)
  have "map_option f (h' a) = map_option f (h a)" using Cons.prems by simp
  moreover have "path f h' p' as q = path f h p' as q" for p'
    using Cons.IH Cons.prems by simp
  ultimately show ?case
    by (cases "h a"; cases "h' a") auto
qed

lemma path_snoc:
  "path f h p (as @ [a]) q = (path f h p as (Some a) \<and> (\<exists>nd. h a = Some nd \<and> f nd = q))"
  by (auto simp: path_append split: option.splits)

lemma path_redirect:
  assumes "path f h p as q" "as \<noteq> []" "distinct as"
    "\<And>a. a \<in> set (butlast as) \<Longrightarrow> map_option f (h' a) = map_option f (h a)"
    "map_option f (h' (last as)) = Some q'"
  shows "path f h' p as q'"
proof -
  obtain bs b where as: "as = bs @ [b]" using assms(2) by (cases as rule: rev_cases) auto
  have "path f h p bs (Some b)" using assms(1) as by (simp add: path_snoc)
  moreover have "path f h' p bs (Some b) = path f h p bs (Some b)"
    using assms(4) as by (intro path_cong) simp
  ultimately show ?thesis using assms(5) as by (auto simp: path_snoc)
qed

lemma path_insert_seg:
  assumes "path f h p (xs @ ys) q" "path f h zp zs zq" "zs \<noteq> []"
    "distinct (xs @ zs @ ys)"
    "\<And>a. a \<in> set (butlast xs) \<union> set (butlast zs) \<union> set ys
        \<Longrightarrow> map_option f (h' a) = map_option f (h a)"
    "xs \<noteq> [] \<Longrightarrow> map_option f (h' (last xs)) = Some (Some (hd zs))"
    "map_option f (h' (last zs)) = Some (first_or ys q)"
  shows "path f h' (if xs = [] then Some (hd zs) else p) (xs @ zs @ ys) q"
proof -
  from assms(1) obtain m where m: "path f h p xs m" "path f h m ys q"
    by (auto simp: path_append)
  have m_eq: "m = first_or ys q" using m(2) by (rule path_start)
  have "path f h' m ys q = path f h m ys q"
    by (rule path_cong) (simp add: assms(5))
  then have ys: "path f h' (first_or ys q) ys q" using m(2) m_eq by simp
  have zp: "zp = Some (hd zs)" using path_start [OF assms(2)] assms(3) by (cases zs) auto
  have dz: "distinct zs" and dx: "distinct xs" using assms(4) by simp_all
  have "path f h' zp zs (first_or ys q)"
    by (rule path_redirect [where h' = h', OF assms(2,3) dz _ assms(7)]) (simp add: assms(5))
  then have zs: "path f h' (Some (hd zs)) zs (first_or ys q)" using zp by simp
  have xs: "path f h' (if xs = [] then Some (hd zs) else p) xs (Some (hd zs))"
  proof (cases "xs = []")
    case True
    then show ?thesis by simp
  next
    case False
    have "path f h' p xs (Some (hd zs))"
      by (rule path_redirect [where h' = h', OF m(1) False dx _ assms(6) [OF False]]) (simp add: assms(5))
    then show ?thesis using False by simp
  qed
  from xs zs ys show ?thesis unfolding path_append by blast
qed

lemma path_remove_seg:
  assumes "path f h p (xs @ zs @ ys) q" "distinct (xs @ zs @ ys)"
    "\<And>a. a \<in> set (butlast xs) \<union> set ys \<Longrightarrow> map_option f (h' a) = map_option f (h a)"
    "xs \<noteq> [] \<Longrightarrow> map_option f (h' (last xs)) = Some (first_or ys q)"
  shows "path f h' (if xs = [] then first_or ys q else p) (xs @ ys) q"
proof -
  from assms(1) obtain m k where m: "path f h p xs m" "path f h m zs k" "path f h k ys q"
    unfolding path_append by blast
  have k_eq: "k = first_or ys q" using m(3) by (rule path_start)
  have "path f h' k ys q = path f h k ys q"
    by (rule path_cong) (simp add: assms(3))
  then have ys: "path f h' (first_or ys q) ys q" using m(3) k_eq by simp
  have dx: "distinct xs" using assms(2) by simp
  have xs: "path f h' (if xs = [] then first_or ys q else p) xs (first_or ys q)"
  proof (cases "xs = []")
    case True
    then show ?thesis by simp
  next
    case False
    have "path f h' p xs (first_or ys q)"
      by (rule path_redirect [where h' = h', OF m(1) False dx _ assms(4) [OF False]]) (simp add: assms(3))
    then show ?thesis using False by simp
  qed
  from xs ys show ?thesis unfolding path_append by blast
qed

lemma upd_list_Some:
  "lists s l = Some L \<Longrightarrow> upd_list l f s = Some (s\<lparr>lists := (lists s)(l \<mapsto> f L)\<rparr>)"
  by (simp add: upd_list_def)

lemma upd_node_Some:
  "nodes s a = Some nd \<Longrightarrow> upd_node (Some a) f s = Some (s\<lparr>nodes := (nodes s)(a \<mapsto> f nd)\<rparr>)"
  by (simp add: upd_node_def)

lemma node_at_Some [simp]: "node_at s (Some a) = nodes s a"
  by (simp add: node_at_def)

lemma node_at_None [simp]: "node_at s None = None"
  by (simp add: node_at_def)

lemma go_cache_fields [simp]:
  "head (go_cache L i p) = head L" "tail (go_cache L i p) = tail L"
  "pkb (go_cache L i p) = pkb L" "type_size (go_cache L i p) = type_size L"
  "size_l (go_cache L i p) = size_l L" "zskb (go_cache L i p) = zskb L"
  "flags (go_cache L i p) AND 1 = flags L AND 1"
  by (simp_all add: go_cache_def or2_and1)

lemma cache_ok_go_cache:
  "cache_ok L ns \<Longrightarrow> i < length ns \<Longrightarrow> cache_ok (go_cache L i (Some (ns ! i))) ns"
  by (simp add: cache_ok_def go_cache_def)

lemma go_cache_shortcut:
  "i = 0 \<or> i = 1 \<or> i = size_l L - 1 \<or> i = size_l L - 2 \<Longrightarrow> go_cache L i p = L"
  by (simp add: go_cache_def)

lemma mem_lists_idem: "lists s l = Some L \<Longrightarrow> s\<lparr>lists := (lists s)(l \<mapsto> L)\<rparr> = s"
  by (simp add: fun_upd_idem)

lemma dll_insert:
  fixes h h' :: "addr \<Rightarrow> 'a node option"
  assumes "path nxt h hp (xs @ ys) None" "path prv h tp (rev (xs @ ys)) None"
    "distinct (xs @ ys)" "n \<notin> set (xs @ ys)" "h n = Some nd"
    "\<And>a. a \<in> set (butlast xs) \<union> set ys \<Longrightarrow> map_option nxt (h' a) = map_option nxt (h a)"
    "xs \<noteq> [] \<Longrightarrow> map_option nxt (h' (last xs)) = Some (Some n)"
    "map_option nxt (h' n) = Some (first_or ys None)"
    "\<And>a. a \<in> set xs \<union> set (tl ys) \<Longrightarrow> map_option prv (h' a) = map_option prv (h a)"
    "ys \<noteq> [] \<Longrightarrow> map_option prv (h' (hd ys)) = Some (Some n)"
    "map_option prv (h' n) = Some (first_or (rev xs) None)"
  shows "path nxt h' (if xs = [] then Some n else hp) (xs @ n # ys) None"
    and "path prv h' (if ys = [] then Some n else tp) (rev (xs @ n # ys)) None"
proof -
  have seg1: "path nxt h (Some n) [n] (nxt nd)" using assms(5) by simp
  have seg2: "path prv h (Some n) [n] (prv nd)" using assms(5) by simp
  have d1: "distinct (xs @ [n] @ ys)" using assms(3,4) by auto
  have ne: "[n] \<noteq> []" by simp
  have "path nxt h' (if xs = [] then Some (hd [n]) else hp) (xs @ [n] @ ys) None"
    using assms(6,7,8) by (intro path_insert_seg [OF assms(1) seg1 ne d1]) simp_all
  then show "path nxt h' (if xs = [] then Some n else hp) (xs @ n # ys) None"
    by (cases "xs = []") simp_all
  have p2: "path prv h tp (rev ys @ rev xs) None" using assms(2) by simp
  have d2: "distinct (rev ys @ [n] @ rev xs)" using assms(3,4) by auto
  have "path prv h' (if rev ys = [] then Some (hd [n]) else tp) (rev ys @ [n] @ rev xs) None"
    using assms(9,10,11)
    by (intro path_insert_seg [OF p2 seg2 ne d2]) (auto simp: butlast_rev last_rev)
  then show "path prv h' (if ys = [] then Some n else tp) (rev (xs @ n # ys)) None"
    by (cases "ys = []") simp_all
qed

lemma insert_node_ok:
  fixes s :: "'a mem"
  assumes L: "lists s l = Some L"
    and w: "path nxt (nodes s) (head L) (xs @ ys) None"
      "path prv (nodes s) (tail L) (rev (xs @ ys)) None"
      "size_l L = length (xs @ ys)" "cache_ok L (xs @ ys)"
    and dist: "distinct (xs @ ys)" "n \<notin> set (xs @ ys)"
    and n: "nodes s n = Some nd"
    and bound: "length (xs @ ys) + 1 < SIZE_LIMIT"
  shows "\<exists>L' h'. vnut_cl_insert_node l (length xs) n s
                   = Some (s\<lparr>lists := (lists s)(l \<mapsto> L'), nodes := h'\<rparr>)
      \<and> path nxt h' (head L') (xs @ n # ys) None
      \<and> path prv h' (tail L') (rev (xs @ n # ys)) None
      \<and> size_l L' = length (xs @ ys) + 1 \<and> cache_ok L' (xs @ n # ys)
      \<and> pkb L' = pkb L \<and> zskb L' = zskb L \<and> type_size L' = type_size L
      \<and> flags L' AND 1 = flags L AND 1
      \<and> (\<forall>a. a \<notin> set (xs @ ys) \<and> a \<noteq> n \<longrightarrow> h' a = nodes s a)
      \<and> (\<forall>a. map_option payload (h' a) = map_option payload (nodes s a))"
proof -
  let ?ns = "xs @ ys"
  let ?i = "length xs"
  have sz: "sz_add (length ?ns) 1 = length ?ns + 1"
    using bound by (simp add: sz_add_def)
  have same: "s\<lparr>lists := (lists s)(l \<mapsto> L)\<rparr> = s" by (rule mem_lists_idem [OF L])
  have hd: "xs = [] \<Longrightarrow> head L = first_or ys None"
    using path_start [OF w(1)] by simp
  have tl: "ys = [] \<Longrightarrow> tail L = first_or (rev xs) None"
    using path_start [OF w(2)] by simp
  consider (a) "xs = []" "ys = []"
    | (b) y ys' where "xs = []" "ys = y # ys'"
    | (c) xs' p where "xs = xs' @ [p]" "ys = []"
    | (d) xs' p y ys' where "xs = xs' @ [p]" "ys = y # ys'"
    by (cases xs rule: rev_cases; cases ys) auto
  then show ?thesis
  proof cases
    case a
    define L' where "L' = L\<lparr>head := Some n, tail := Some n, size_l := 1,
                           ruly := sz_add (ruly L) 1\<rparr>"
    define h' where "h' = (nodes s)(n \<mapsto> nd\<lparr>nxt := None, prv := None\<rparr>)"
    have run: "vnut_cl_insert_node l ?i n s = Some (s\<lparr>lists := (lists s)(l \<mapsto> L'), nodes := h'\<rparr>)"
      using L w(3) n a sz
      by (simp add: vnut_cl_insert_node_def upd_list_Some upd_node_Some L'_def h'_def)
    have c: "cache_ok L' (xs @ n # ys)"
      using w(4) a by (simp add: cache_ok_def L'_def)
    show ?thesis
      using run c a n by (intro exI [of _ L'] exI [of _ h']) (simp add: L'_def h'_def)
  next
    case b
    define L' where "L' = L\<lparr>head := Some n, size_l := length ?ns + 1,
                           ruly := sz_add (ruly L) 1\<rparr>"
    have i: "0 < length ?ns" using b by simp
    from path_nth [OF w(1) i] b obtain yn0 where "nodes s y = Some yn0" by auto
    from prv_nth [OF w(2) i] b obtain yn where yn: "nodes s y = Some yn" "prv yn = None"
      by auto
    define h' where "h' = (nodes s)(y \<mapsto> yn\<lparr>prv := Some n\<rparr>, n \<mapsto> nd\<lparr>nxt := Some y, prv := None\<rparr>)"
    have go1: "clist_go (Some l) 0 s = Some (Some y, s)"
      using clist_go_wf [OF L w i] b same by (simp add: go_cache_shortcut)
    have ne: "y \<noteq> n" using dist b by auto
    have run: "vnut_cl_insert_node l ?i n s = Some (s\<lparr>lists := (lists s)(l \<mapsto> L'), nodes := h'\<rparr>)"
      using L w(3) n b sz go1 yn ne
      by (simp add: vnut_cl_insert_node_def upd_list_Some upd_node_Some L'_def h'_def)
    have c: "cache_ok L' (xs @ n # ys)"
    proof (cases "flags L AND 2 = 0")
      case True
      then show ?thesis by (simp add: cache_ok_def L'_def)
    next
      case False
      then have r: "ruly L < length ?ns" "rul L = Some (?ns ! ruly L)"
        using w(4) by (auto simp: cache_ok_def)
      then have "sz_add (ruly L) 1 = ruly L + 1" using bound by (simp add: sz_add_def)
      then show ?thesis using r b by (simp add: cache_ok_def L'_def)
    qed
    have p1: "path nxt h' (if xs = [] then Some n else head L) (xs @ n # ys) None"
      by (rule dll_insert(1) [where h' = h', OF w(1,2) dist n])
        (use b yn ne dist in \<open>auto simp: h'_def\<close>)
    have p2: "path prv h' (if ys = [] then Some n else tail L) (rev (xs @ n # ys)) None"
      by (rule dll_insert(2) [where h' = h', OF w(1,2) dist n])
        (use b yn ne dist in \<open>auto simp: h'_def\<close>)
    note p = p1 p2
    show ?thesis
      using run c p b ne n
      by (intro exI [of _ L'] exI [of _ h']) (auto simp: L'_def h'_def yn)
  next
    case c
    define L' where "L' = L\<lparr>tail := Some n, size_l := length ?ns + 1\<rparr>"
    have i: "?i - 1 < length ?ns" using c by simp
    have nthi: "?ns ! (?i - 1) = p" using c by (simp add: nth_append)
    from path_alloc [OF w(1), of p] c obtain pn where pn: "nodes s p = Some pn" by auto
    define h' where "h' = (nodes s)(p \<mapsto> pn\<lparr>nxt := Some n\<rparr>, n \<mapsto> nd\<lparr>nxt := None, prv := Some p\<rparr>)"
    have go2: "clist_go (Some l) (?i - 1) s = Some (Some p, s)"
      using clist_go_wf [OF L w i] c nthi same w(3) by (simp add: go_cache_shortcut)
    have ne: "p \<noteq> n" using dist c by auto
    have run: "vnut_cl_insert_node l ?i n s = Some (s\<lparr>lists := (lists s)(l \<mapsto> L'), nodes := h'\<rparr>)"
      using L w(3) n c sz go2 pn ne
      by (simp add: vnut_cl_insert_node_def upd_list_Some upd_node_Some L'_def h'_def)
    have co: "cache_ok L' (xs @ n # ys)"
      using w(4) c by (auto simp: cache_ok_def L'_def nth_append)
    have p1: "path nxt h' (if xs = [] then Some n else head L) (xs @ n # ys) None"
      by (rule dll_insert(1) [where h' = h', OF w(1,2) dist n])
        (use c pn ne dist in \<open>auto simp: h'_def\<close>)
    have p2: "path prv h' (if ys = [] then Some n else tail L) (rev (xs @ n # ys)) None"
      by (rule dll_insert(2) [where h' = h', OF w(1,2) dist n])
        (use c pn ne dist in \<open>auto simp: h'_def\<close>)
    note p = p1 p2
    show ?thesis
      using run co p c ne n
      by (intro exI [of _ L'] exI [of _ h']) (auto simp: L'_def h'_def pn)
  next
    case d
    have i: "?i < length ?ns" "?i - 1 < length ?ns" using d by simp_all
    have nthi: "?ns ! ?i = y" "?ns ! (?i - 1) = p" using d by (simp_all add: nth_append)
    define L1 where "L1 = go_cache L ?i (Some y)"
    define s1 where "s1 = s\<lparr>lists := (lists s)(l \<mapsto> L1)\<rparr>"
    define L2 where "L2 = go_cache L1 (?i - 1) (Some p)"
    define s2 where "s2 = s1\<lparr>lists := (lists s1)(l \<mapsto> L2)\<rparr>"
    have go1: "clist_go (Some l) ?i s = Some (Some y, s1)"
      using clist_go_wf [OF L w i(1)] nthi by (simp add: s1_def L1_def)
    have L1: "lists s1 l = Some L1" by (simp add: s1_def)
    have c1: "cache_ok L1 ?ns" using cache_ok_go_cache [OF w(4) i(1)] nthi by (simp add: L1_def)
    have go2: "clist_go (Some l) (?i - 1) s1 = Some (Some p, s2)"
      using clist_go_wf [OF L1, of ?ns "?i - 1"] w c1 i(2) nthi
      by (simp add: s1_def L1_def s2_def L2_def)
    from path_alloc [OF w(1), of p] d obtain pn where pn: "nodes s p = Some pn" by auto
    from prv_nth [OF w(2) i(1)] nthi d obtain yn where
      yn: "nodes s y = Some yn" "prv yn = Some p" by auto
    have ne: "p \<noteq> y" "p \<noteq> n" "y \<noteq> n" using dist d by auto
    define L' where "L' = L2\<lparr>size_l := length ?ns + 1, rul := Some n, ruly := ?i,
                             flags := flags L2 OR 2\<rparr>"
    define h' where "h' = (nodes s)(p \<mapsto> pn\<lparr>nxt := Some n\<rparr>, y \<mapsto> yn\<lparr>prv := Some n\<rparr>,
                                     n \<mapsto> nd\<lparr>nxt := Some y, prv := Some p\<rparr>)"
    have run: "vnut_cl_insert_node l ?i n s = Some (s\<lparr>lists := (lists s)(l \<mapsto> L'), nodes := h'\<rparr>)"
      using L w(3) go1 go2 pn yn ne n sz i
      by (simp add: vnut_cl_insert_node_def upd_list_Some upd_node_Some s1_def s2_def
          L1_def L2_def L'_def h'_def d)
    have co: "cache_ok L' (xs @ n # ys)"
      by (simp add: cache_ok_def L'_def)
    have p1: "path nxt h' (if xs = [] then Some n else head L) (xs @ n # ys) None"
      by (rule dll_insert(1) [where h' = h', OF w(1,2) dist n])
        (use d pn yn ne dist in \<open>auto simp: h'_def\<close>)
    have p2: "path prv h' (if ys = [] then Some n else tail L) (rev (xs @ n # ys)) None"
      by (rule dll_insert(2) [where h' = h', OF w(1,2) dist n])
        (use d pn yn ne dist in \<open>auto simp: h'_def\<close>)
    note p = p1 p2
    show ?thesis
      using run co p d ne n
      by (intro exI [of _ L'] exI [of _ h'])
        (auto simp: L'_def h'_def pn yn L2_def L1_def or2_and1)
  qed
qed

lemma length_bound:
  assumes "distinct as" "list_all valid_addr as"
  shows "length as < SIZE_LIMIT"
proof -
  have "set as \<subseteq> {1..<SIZE_LIMIT}"
    using assms(2) by (auto simp: list_all_iff valid_addr_def)
  then have "card (set as) \<le> card {1..<SIZE_LIMIT}"
    by (intro card_mono) simp_all
  then show ?thesis
    using assms(1) by (simp add: distinct_card SIZE_LIMIT_def)
qed

lemma wf_listD:
  "wf_list s l ns ps \<Longrightarrow> \<exists>L. lists s l = Some L \<and> wf_L (nodes s) L ns ps"
  by (auto simp: wf_list_def split: option.splits)

lemma wf_listI:
  "lists s l = Some L \<Longrightarrow> wf_L (nodes s) L ns ps \<Longrightarrow> wf_list s l ns ps"
  by (simp add: wf_list_def)

lemma distinct_insert_mid:
  assumes "distinct (ns @ ps)" "n \<notin> set ns" "n \<notin> set ps"
  shows "distinct ((take i ns @ n # drop i ns) @ ps)"
proof -
  obtain xs ys where ns: "ns = xs @ ys" "take i ns = xs" "drop i ns = ys"
    by (metis append_take_drop_id)
  show ?thesis using assms unfolding ns(2,3) unfolding ns(1) by auto
qed

lemma set_insert_mid: "set (take i ns @ n # drop i ns) = insert n (set ns)"
  by (metis append_take_drop_id list.set(2) set_append Un_insert_right)

lemma mem_upd_order:
  "s\<lparr>nodes := a, brk := b, budget := c, mallocs := d\<rparr>
     = s\<lparr>brk := b, budget := c, mallocs := d, nodes := a\<rparr>"
  by simp

lemma clist_insert_ok:
  fixes s :: "'a mem"
  assumes h: "heap_ok s" and w: "wf_list s l ns ps" and i: "idx \<le> length ns"
    and nf: "node_fits s l"
  shows "\<exists>r s'. clist_insert (Some l) idx pl s = Some (r, s') \<and>
    (if ps = [] \<and> malloc_fails s
     then r = EXIT_FAILURE \<and> s' = s\<lparr>mallocs := mallocs s + 1\<rparr>
     else r = EXIT_SUCCESS \<and>
       (\<exists>n. n = (if ps = [] then brk s else hd ps)
          \<and> wf_list s' l (take idx ns @ n # drop idx ns) (tl ps) \<and> heap_ok s'
          \<and> mallocs s' = (if ps = [] then mallocs s + 1 else mallocs s)
          \<and> payload_at s' (Some n) = (case pl of Some v \<Rightarrow> Some v | None \<Rightarrow> payload_at s (Some n))
          \<and> (\<forall>a. a \<noteq> n \<longrightarrow> payload_at s' (Some a) = payload_at s (Some a))
          \<and> same_outside s s' l (insert n (set ns))
          \<and> freed s' = freed s \<and> node_fits s' l
          \<and> budget s' = (if ps = [] then budget s - 1 else budget s)
          \<and> brk s' = (if ps = [] then brk s + 1 else brk s)
          \<and> map_option (\<lambda>L. flags L AND 1) (lists s' l) = map_option (\<lambda>L. flags L AND 1) (lists s l)))"
proof -
  from wf_listD [OF w] obtain L where L: "lists s l = Some L" and wL: "wf_L (nodes s) L ns ps"
    by blast
  have fit: "sizeof_node \<le> sz_add sizeof_node (type_size L)"
    using nf L by (simp add: node_fits_def sz_add_def)
  have p1: "path nxt (nodes s) (head L) ns None"
    and p2: "path prv (nodes s) (tail L) (rev ns) None"
    and sz: "size_l L = length ns" and pp: "path nxt (nodes s) (pkb L) ps None"
    and zs: "zskb L = length ps" and dist: "distinct (ns @ ps)"
    and va: "list_all valid_addr (ns @ ps)" and co: "cache_ok L ns"
    using wL by (simp_all add: wf_L_def)
  let ?xs = "take idx ns" and ?ys = "drop idx ns"
  have split: "?xs @ ?ys = ns" "length ?xs = idx" using i by simp_all
  show ?thesis
  proof (cases ps)
    case (Cons p ps')
    from pp Cons obtain pn where pn: "nodes s p = Some pn" "path nxt (nodes s) (nxt pn) ps' None"
      and pk: "pkb L = Some p" by (auto split: option.splits)
    define L1 where "L1 = L\<lparr>pkb := nxt pn, zskb := zskb L - 1\<rparr>"
    define nd where "nd = (case pl of None \<Rightarrow> pn | Some v \<Rightarrow> pn\<lparr>payload := Some v\<rparr>)"
    define s2 where "s2 = s\<lparr>lists := (lists s)(l \<mapsto> L1), nodes := (nodes s)(p \<mapsto> nd)\<rparr>"
    have pnot: "p \<notin> set ns" "p \<notin> set ps'" using dist Cons by auto
    have fr: "path f (nodes s2) q as r = path f (nodes s) q as r" if "p \<notin> set as" for f q r as
      using that by (simp add: s2_def path_upd_other)
    have L2: "lists s2 l = Some L1" by (simp add: s2_def)
    have n2: "nodes s2 p = Some nd" by (simp add: s2_def)
    have bound: "length (?xs @ ?ys) + 1 < SIZE_LIMIT"
      using length_bound [OF dist va] Cons by simp
    have "\<exists>L' h'. vnut_cl_insert_node l (length ?xs) p s2
                   = Some (s2\<lparr>lists := (lists s2)(l \<mapsto> L'), nodes := h'\<rparr>)
      \<and> path nxt h' (head L') (?xs @ p # ?ys) None
      \<and> path prv h' (tail L') (rev (?xs @ p # ?ys)) None
      \<and> size_l L' = length (?xs @ ?ys) + 1 \<and> cache_ok L' (?xs @ p # ?ys)
      \<and> pkb L' = pkb L1 \<and> zskb L' = zskb L1 \<and> type_size L' = type_size L1
      \<and> flags L' AND 1 = flags L1 AND 1
      \<and> (\<forall>a. a \<notin> set (?xs @ ?ys) \<and> a \<noteq> p \<longrightarrow> h' a = nodes s2 a)
      \<and> (\<forall>a. map_option payload (h' a) = map_option payload (nodes s2 a))"
      using p1 p2 sz co dist pnot split
      by (intro insert_node_ok [OF L2 _ _ _ _ _ _ n2 bound])
        (simp_all add: fr L1_def cache_ok_def)
    then obtain L' h' where
      run: "vnut_cl_insert_node l idx p s2 = Some (s2\<lparr>lists := (lists s2)(l \<mapsto> L'), nodes := h'\<rparr>)"
      and q1: "path nxt h' (head L') (?xs @ p # ?ys) None"
      and q2: "path prv h' (tail L') (rev (?xs @ p # ?ys)) None"
      and q3: "size_l L' = length ns + 1" "cache_ok L' (?xs @ p # ?ys)"
        "pkb L' = nxt pn" "zskb L' = zskb L - 1"
      and q4: "\<And>a. a \<notin> set ns \<Longrightarrow> a \<noteq> p \<Longrightarrow> h' a = nodes s2 a"
      and q5: "\<And>a. map_option payload (h' a) = map_option payload (nodes s2 a)"
      and q6: "type_size L' = type_size L" "flags L' AND 1 = flags L AND 1"
      using split by (auto simp: L1_def)
    define s' where "s' = s2\<lparr>lists := (lists s2)(l \<mapsto> L'), nodes := h'\<rparr>"
    have idem: "(nodes s)(p \<mapsto> pn) = nodes s" using pn(1) by (simp add: fun_upd_idem)
    have ins: "clist_insert (Some l) idx pl s = Some (EXIT_SUCCESS, s')"
      using L i sz zs Cons pk pn run
      by (cases pl)
        (simp_all add: clist_insert_def upd_list_Some upd_node_Some s2_def L1_def nd_def s'_def
          idem)
    have pool: "path nxt h' (nxt pn) ps' None"
    proof -
      have "path nxt h' (nxt pn) ps' None = path nxt (nodes s) (nxt pn) ps' None"
        using dist Cons q4 by (intro path_frame) (auto simp: s2_def)
      then show ?thesis using pn(2) by simp
    qed
    have sets: "set (?xs @ p # ?ys) = insert p (set ns)" by (rule set_insert_mid)
    have d': "distinct ((?xs @ p # ?ys) @ ps')"
      using dist pnot Cons by (intro distinct_insert_mid) auto
    have v': "list_all valid_addr ((?xs @ p # ?ys) @ ps')"
    proof -
      have "set ((?xs @ p # ?ys) @ ps') \<subseteq> set (ns @ ps)"
        using Cons by (auto dest: in_set_takeD in_set_dropD)
      then show ?thesis using va unfolding list_all_iff by blast
    qed
    have Ls': "lists s' l = Some L'" by (simp add: s'_def)
    have wf': "wf_list s' l (?xs @ p # ?ys) (tl ps)"
      using q1 q2 q3 pool d' v' zs Cons
      by (intro wf_listI [OF Ls']) (simp add: wf_L_def s'_def)
    have hk: "heap_ok s'"
    proof -
      have "h' a = None" if "brk s \<le> a" for a
      proof -
        have a: "nodes s a = None" using h that by (simp add: heap_ok_def)
        then have "a \<noteq> p" "a \<notin> set ns" using pn(1) path_alloc [OF p1, of a] by auto
        then show ?thesis using q4 a by (simp add: s2_def)
      qed
      then show ?thesis using h by (simp add: heap_ok_def s'_def s2_def)
    qed
    have pay: "payload_at s' (Some a) = (if a = p then (case pl of Some v \<Rightarrow> Some v
                 | None \<Rightarrow> payload_at s (Some p)) else payload_at s (Some a))" for a
      using q5 [of a] pn(1)
      by (cases "h' a"; cases "nodes s a"; cases pl)
        (auto simp: payload_at_def s'_def s2_def nd_def split: if_splits)
    have so: "same_outside s s' l (insert p (set ns))"
      using q4 by (auto simp: same_outside_def s'_def s2_def)
    have ms: "mallocs s' = mallocs s" "freed s' = freed s" "budget s' = budget s"
      "brk s' = brk s"
      by (simp_all add: s'_def s2_def)
    have nf': "node_fits s' l" using nf L Ls' q6 by (simp add: node_fits_def)
    have fl': "map_option (\<lambda>L. flags L AND 1) (lists s' l)
        = map_option (\<lambda>L. flags L AND 1) (lists s l)"
      using L Ls' q6 by simp
    show ?thesis
      using ins wf' hk pay so Cons ms nf' fl'
      by (intro exI [of _ EXIT_SUCCESS] exI [of _ s']) simp
  next
    case Nil
    show ?thesis
    proof (cases "malloc_fails s")
      case True
      then show ?thesis
        using L i sz zs Nil
        by (auto simp: clist_insert_def malloc_node_def malloc_fails_def)
    next
      case False
      define n where "n = brk s"
      define nd :: "'a node" where
        "nd = (case pl of None \<Rightarrow> \<lparr>nxt = None, prv = None, payload = None\<rparr>
               | Some v \<Rightarrow> \<lparr>nxt = None, prv = None, payload = Some v\<rparr>)"
      define s2 where "s2 = s\<lparr>brk := brk s + 1, budget := budget s - 1,
                               mallocs := mallocs s + 1, nodes := (nodes s)(n \<mapsto> nd)\<rparr>"
      have fresh: "nodes s n = None" using h by (simp add: heap_ok_def n_def)
      have nnot: "n \<notin> set ns" using fresh path_alloc [OF p1, of n] by auto
      have vn: "valid_addr n" using h False by (simp add: heap_ok_def valid_addr_def n_def malloc_fails_def)
      have fr: "path f (nodes s2) q as r = path f (nodes s) q as r" if "n \<notin> set as" for f q r as
        using that by (simp add: s2_def path_upd_other)
      have L2: "lists s2 l = Some L" by (simp add: s2_def L)
      have n2: "nodes s2 n = Some nd" by (simp add: s2_def)
      have dn: "distinct (n # ns)" using dist nnot by simp
      have "list_all valid_addr (n # ns)" using va vn by simp
      from length_bound [OF dn this] have bound: "length (?xs @ ?ys) + 1 < SIZE_LIMIT"
        using split by simp
      have "\<exists>L' h'. vnut_cl_insert_node l (length ?xs) n s2
                   = Some (s2\<lparr>lists := (lists s2)(l \<mapsto> L'), nodes := h'\<rparr>)
        \<and> path nxt h' (head L') (?xs @ n # ?ys) None
        \<and> path prv h' (tail L') (rev (?xs @ n # ?ys)) None
        \<and> size_l L' = length (?xs @ ?ys) + 1 \<and> cache_ok L' (?xs @ n # ?ys)
        \<and> pkb L' = pkb L \<and> zskb L' = zskb L \<and> type_size L' = type_size L
        \<and> flags L' AND 1 = flags L AND 1
        \<and> (\<forall>a. a \<notin> set (?xs @ ?ys) \<and> a \<noteq> n \<longrightarrow> h' a = nodes s2 a)
        \<and> (\<forall>a. map_option payload (h' a) = map_option payload (nodes s2 a))"
        using p1 p2 sz co dist nnot split
        by (intro insert_node_ok [OF L2 _ _ _ _ _ _ n2 bound])
          (simp_all add: fr cache_ok_def)
      then obtain L' h' where
        run: "vnut_cl_insert_node l idx n s2 = Some (s2\<lparr>lists := (lists s2)(l \<mapsto> L'), nodes := h'\<rparr>)"
        and q1: "path nxt h' (head L') (?xs @ n # ?ys) None"
        and q2: "path prv h' (tail L') (rev (?xs @ n # ?ys)) None"
        and q3: "size_l L' = length ns + 1" "cache_ok L' (?xs @ n # ?ys)"
          "pkb L' = pkb L" "zskb L' = zskb L"
        and q4: "\<And>a. a \<notin> set ns \<Longrightarrow> a \<noteq> n \<Longrightarrow> h' a = nodes s2 a"
        and q5: "\<And>a. map_option payload (h' a) = map_option payload (nodes s2 a)"
        and q6: "type_size L' = type_size L" "flags L' AND 1 = flags L AND 1"
        using split by auto
      define s' where "s' = s2\<lparr>lists := (lists s2)(l \<mapsto> L'), nodes := h'\<rparr>"
      have ins: "clist_insert (Some l) idx pl s = Some (EXIT_SUCCESS, s')"
        using L i sz zs Nil False run fit
        by (cases pl)
          (simp_all add: clist_insert_def malloc_node_def malloc_fails_def upd_node_Some
            s2_def nd_def s'_def n_def mem_upd_order)
      have sets: "set (?xs @ n # ?ys) = insert n (set ns)" by (rule set_insert_mid)
      have d': "distinct (?xs @ n # ?ys)"
        using distinct_insert_mid [of ns "[]" n idx] dist nnot by simp
      have v': "list_all valid_addr (?xs @ n # ?ys)"
        using va vn Nil unfolding list_all_iff sets by auto
      have Ls': "lists s' l = Some L'" by (simp add: s'_def)
      have wf': "wf_list s' l (?xs @ n # ?ys) (tl ps)"
        using q1 q2 q3 d' v' zs Nil pp
        by (intro wf_listI [OF Ls']) (simp add: wf_L_def s'_def)
      have hk: "heap_ok s'"
      proof -
        have "h' a = None" if "brk s + 1 \<le> a" for a
        proof -
          have a: "nodes s a = None" using h that by (simp add: heap_ok_def)
          then have "a \<noteq> n" "a \<notin> set ns"
            using that path_alloc [OF p1, of a] by (auto simp: n_def)
          then show ?thesis using q4 a by (simp add: s2_def)
        qed
        then show ?thesis by (simp add: heap_ok_def s'_def s2_def)
      qed
      have pay: "payload_at s' (Some a) = (if a = n then (case pl of Some v \<Rightarrow> Some v
                   | None \<Rightarrow> payload_at s (Some n)) else payload_at s (Some a))" for a
        using q5 [of a] fresh
        by (cases "h' a"; cases "nodes s a"; cases pl)
          (auto simp: payload_at_def s'_def s2_def nd_def split: if_splits)
      have so: "same_outside s s' l (insert n (set ns))"
        using q4 by (auto simp: same_outside_def s'_def s2_def)
      have ms: "mallocs s' = mallocs s + 1" "freed s' = freed s" "budget s' = budget s - 1"
        "brk s' = brk s + 1"
        by (simp_all add: s'_def s2_def)
      have nf': "node_fits s' l" using nf L Ls' q6 by (simp add: node_fits_def)
      have fl': "map_option (\<lambda>L. flags L AND 1) (lists s' l)
          = map_option (\<lambda>L. flags L AND 1) (lists s l)"
        using L Ls' q6 by simp
      show ?thesis
        using ins wf' hk pay so Nil False ms nf' fl'
        by (intro exI [of _ EXIT_SUCCESS] exI [of _ s'])
          (simp add: n_def cong: option.case_cong)
    qed
  qed
qed

lemma erase_loop_ok:
  fixes s :: "'a mem"
  assumes "lists s l = Some L" "path nxt (nodes s) p zs q" "distinct zs"
    "zskb L + length zs < SIZE_LIMIT"
    "can_free (flags L) (freed s) (map (\<lambda>a. payload_at s (Some a)) zs)"
  shows "\<exists>s'. erase_loop l (length zs) p s = Some s'
     \<and> lists s' = (lists s)(l \<mapsto> L\<lparr>pkb := first_or (rev zs) (pkb L),
                                        zskb := zskb L + length zs\<rparr>)
     \<and> (\<forall>a. a \<notin> set zs \<longrightarrow> nodes s' a = nodes s a)
     \<and> (\<forall>a. map_option prv (nodes s' a) = map_option prv (nodes s a))
     \<and> (\<forall>a. map_option payload (nodes s' a) = map_option payload (nodes s a))
     \<and> path nxt (nodes s') (first_or (rev zs) (pkb L)) (rev zs) (pkb L)
     \<and> brk s' = brk s \<and> budget s' = budget s \<and> mallocs s' = mallocs s
     \<and> freed s' = freed s @ (if flags L AND CLIST_PAYLOAD_FREE \<noteq> 0
                              then map (\<lambda>a. payload_at s (Some a)) zs else [])"
  using assms
proof (induction zs arbitrary: s L p)
  case Nil
  then show ?case by (simp add: fun_upd_idem)
next
  case (Cons z zs)
  from Cons.prems(2) obtain zn where p: "p = Some z" and zn: "nodes s z = Some zn"
    and rest: "path nxt (nodes s) (nxt zn) zs q"
    by (auto split: option.splits)
  define L1 where "L1 = L\<lparr>pkb := Some z, zskb := zskb L + 1\<rparr>"
  define s1 where "s1 = (if flags L AND CLIST_PAYLOAD_FREE \<noteq> 0
                         then s\<lparr>freed := freed s @ [payload zn]\<rparr> else s)
                        \<lparr>nodes := (nodes s)(z \<mapsto> zn\<lparr>nxt := pkb L\<rparr>),
                         lists := (lists s)(l \<mapsto> L1)\<rparr>"
  have zadd: "sz_add (zskb L) 1 = zskb L + 1"
    using Cons.prems(4) by (simp add: sz_add_def)
  have pz: "payload_at s (Some z) = payload zn" using zn by (simp add: payload_at_def)
  have fz: "flags L AND CLIST_PAYLOAD_FREE \<noteq> 0 \<Longrightarrow>
      free_ptr (payload zn) s = Some (s\<lparr>freed := freed s @ [payload zn]\<rparr>)"
    using Cons.prems(5) by (auto simp: can_free_def free_ptr_def pz)
  have step: "erase_loop l (length (z # zs)) p s = erase_loop l (length zs) (nxt zn) s1"
    using Cons.prems(1) p zn zadd fz
    by (simp add: upd_node_def upd_list_def s1_def L1_def Let_def)
  have znot: "z \<notin> set zs" and dz: "distinct zs" using Cons.prems(3) by simp_all
  have L1s: "lists s1 l = Some L1" by (simp add: s1_def)
  have rest1: "path nxt (nodes s1) (nxt zn) zs q"
    using rest znot by (simp add: s1_def path_upd_other)
  have b1: "zskb L1 + length zs < SIZE_LIMIT" using Cons.prems(4) by (simp add: L1_def)
  have pay0: "payload_at s1 (Some a) = payload_at s (Some a)" for a
    using zn by (simp add: payload_at_def s1_def)
  have pf0: "(\<lambda>a. payload_at s1 (Some a)) = (\<lambda>a. payload_at s (Some a))"
    using pay0 by (intro ext)
  have f1: "freed s1 = (if flags L AND CLIST_PAYLOAD_FREE \<noteq> 0
                        then freed s @ [payload zn] else freed s)" "flags L1 = flags L"
    by (simp_all add: s1_def L1_def)
  have cf1: "can_free (flags L1) (freed s1) (map (\<lambda>a. payload_at s1 (Some a)) zs)"
    unfolding pf0 f1 using Cons.prems(5) by (auto simp: can_free_def pz)
  from Cons.IH [OF L1s rest1 dz b1 cf1] obtain s' where
    run: "erase_loop l (length zs) (nxt zn) s1 = Some s'"
    and ls: "lists s' = (lists s1)(l \<mapsto> L1\<lparr>pkb := first_or (rev zs) (pkb L1),
                                                zskb := zskb L1 + length zs\<rparr>)"
    and fr: "\<And>a. a \<notin> set zs \<Longrightarrow> nodes s' a = nodes s1 a"
    and pr: "\<And>a. map_option prv (nodes s' a) = map_option prv (nodes s1 a)"
    and pa: "\<And>a. map_option payload (nodes s' a) = map_option payload (nodes s1 a)"
    and pt: "path nxt (nodes s') (first_or (rev zs) (pkb L1)) (rev zs) (pkb L1)"
    and al: "brk s' = brk s1" "budget s' = budget s1" "mallocs s' = mallocs s1"
    and fd: "freed s' = freed s1 @ (if flags L1 AND CLIST_PAYLOAD_FREE \<noteq> 0
                              then map (\<lambda>a. payload_at s1 (Some a)) zs else [])"
    by blast
  have zs': "nodes s' z = Some (zn\<lparr>nxt := pkb L\<rparr>)" using fr [OF znot] by (simp add: s1_def)
  have pt': "path nxt (nodes s') (first_or (rev (z # zs)) (pkb L)) (rev (z # zs)) (pkb L)"
    using pt zs' by (simp add: path_snoc L1_def first_or_append)
  have ls': "lists s' = (lists s)(l \<mapsto> L\<lparr>pkb := first_or (rev (z # zs)) (pkb L),
                                          zskb := zskb L + length (z # zs)\<rparr>)"
    using ls by (simp add: s1_def L1_def first_or_append)
  have pay1: "payload_at s1 (Some a) = payload_at s (Some a)" for a
    using zn by (simp add: payload_at_def s1_def)
  have fd': "freed s' = freed s @ (if flags L AND CLIST_PAYLOAD_FREE \<noteq> 0
                              then map (\<lambda>a. payload_at s (Some a)) (z # zs) else [])"
    using fd zn by (simp add: pay1 L1_def) (simp add: s1_def payload_at_def)
  have fr': "nodes s' a = nodes s a" if "a \<notin> set (z # zs)" for a
    using fr [of a] that by (simp add: s1_def)
  have pr': "map_option prv (nodes s' a) = map_option prv (nodes s a)" for a
    using pr [of a] zn by (simp add: s1_def)
  have pa': "map_option payload (nodes s' a) = map_option payload (nodes s a)" for a
    using pa [of a] zn by (simp add: s1_def)
  have al': "brk s' = brk s" "budget s' = budget s" "mallocs s' = mallocs s"
    using al by (simp_all add: s1_def)
  show ?case
    unfolding step run using ls' fr' pr' pa' pt' al' fd' by blast
qed

lemma sz_add_simp: "a + b < SIZE_LIMIT \<Longrightarrow> sz_add a b = a + b"
  by (simp add: sz_add_def)

lemma sz_sub_simp: "b \<le> a \<Longrightarrow> a < SIZE_LIMIT \<Longrightarrow> sz_sub a b = a - b"
proof -
  assume a: "b \<le> a" "a < SIZE_LIMIT"
  have "a + SIZE_LIMIT - b = SIZE_LIMIT + (a - b)" using a(1) by linarith
  moreover have "(SIZE_LIMIT + (a - b)) mod SIZE_LIMIT = (a - b) mod SIZE_LIMIT"
    by (simp only: mod_add_self1)
  moreover have "(a - b) mod SIZE_LIMIT = a - b" using a(2) by (intro mod_less) linarith
  ultimately show ?thesis by (simp only: sz_sub_def)
qed

lemma upd_node_map:
  "nodes s a = Some nd \<Longrightarrow>
   upd_node (Some a) f s = Some (s\<lparr>nodes := (nodes s)(a := map_option f (nodes s a))\<rparr>)"
  by (simp add: upd_node_def)

lemma and_free: "(f :: 32 word) AND CLIST_PAYLOAD_FREE = f AND 1"
  by (simp add: CLIST_PAYLOAD_FREE_def)

lemma last_notin_butlast: "distinct xs \<Longrightarrow> xs \<noteq> [] \<Longrightarrow> last xs \<notin> set (butlast xs)"
  by (cases xs rule: rev_cases) auto

lemma upd_keeps:
  assumes "\<And>n. g (f n) = g n"
  shows "map_option g ((h(b := map_option f (h b))) a) = map_option g (h a)"
proof (cases "a = b")
  case True
  then show ?thesis using assms by (cases "h b") simp_all
next
  case False
  then show ?thesis by simp
qed

lemma erase_ok_split:
  fixes s :: "'a mem"
  assumes L: "lists s l = Some L" and wL: "wf_L (nodes s) L (xs @ zs @ ys) ps"
    and nz: "zs \<noteq> []"
    and cf: "can_free (flags L) (freed s) (map (\<lambda>a. payload_at s (Some a)) zs)"
  shows "\<exists>s' L'. clist_erase (Some l) (length xs) (length zs) s = Some s'
     \<and> lists s' = (lists s)(l \<mapsto> L') \<and> wf_L (nodes s') L' (xs @ ys) (rev zs @ ps)
     \<and> type_size L' = type_size L \<and> flags L' AND 1 = flags L AND 1
     \<and> (\<forall>a. a \<notin> set (xs @ zs @ ys) \<longrightarrow> nodes s' a = nodes s a)
     \<and> (\<forall>a. map_option payload (nodes s' a) = map_option payload (nodes s a))
     \<and> brk s' = brk s \<and> budget s' = budget s \<and> mallocs s' = mallocs s
     \<and> freed s' = freed s @ (if flags L AND 1 \<noteq> 0
                              then map (\<lambda>a. payload_at s (Some a)) zs else [])"
proof -
  let ?ns = "xs @ zs @ ys"
  let ?i = "length xs" and ?c = "length zs"
  have p1: "path nxt (nodes s) (head L) ?ns None"
    and p2: "path prv (nodes s) (tail L) (rev ?ns) None"
    and sz: "size_l L = length ?ns" and pp: "path nxt (nodes s) (pkb L) ps None"
    and zk: "zskb L = length ps" and dist: "distinct (?ns @ ps)"
    and va: "list_all valid_addr (?ns @ ps)" and co: "cache_ok L ?ns"
    using wL by (simp_all add: wf_L_def)
  have bound: "length ?ns + length ps < SIZE_LIMIT"
    using length_bound [OF dist va] by simp
  have cpos: "0 < ?c" using nz by simp
  have i1: "?i < length ?ns" and i2: "?i + ?c - 1 < length ?ns"
    using nz by (cases zs; simp)+
  have nth1: "?ns ! ?i = hd zs" using nz by (simp add: nth_append hd_conv_nth)
  have nth2: "?ns ! (?i + ?c - 1) = last zs"
  proof -
    have e: "?i + ?c - 1 = ?i + (?c - 1)" using cpos by linarith
    have "?ns ! (?i + (?c - 1)) = (zs @ ys) ! (?c - 1)" by (rule nth_append_length_plus)
    also have "\<dots> = zs ! (?c - 1)" using cpos by (simp add: nth_append)
    also have "\<dots> = last zs" using nz by (simp add: last_conv_nth)
    finally show ?thesis unfolding e .
  qed
  define pvp where "pvp = first_or (rev xs) None"
  define nxp where "nxp = first_or ys None"
  define L1 where "L1 = go_cache L ?i (Some (hd zs))"
  define s1 where "s1 = s\<lparr>lists := (lists s)(l \<mapsto> L1)\<rparr>"
  define L2 where "L2 = go_cache L1 (?i + ?c - 1) (Some (last zs))"
  define s2 where "s2 = s1\<lparr>lists := (lists s1)(l \<mapsto> L2)\<rparr>"
  have go1: "clist_go (Some l) ?i s = Some (Some (hd zs), s1)"
    using clist_go_wf [OF L p1 p2 sz co i1] nth1 by (simp add: s1_def L1_def)
  have L1s: "lists s1 l = Some L1" by (simp add: s1_def)
  have c1: "cache_ok L1 ?ns" using cache_ok_go_cache [OF co i1] nth1 by (simp add: L1_def)
  have go2: "clist_go (Some l) (?i + ?c - 1) s1 = Some (Some (last zs), s2)"
    using clist_go_wf [OF L1s, of ?ns "?i + ?c - 1"] p1 p2 sz c1 i2 nth2
    by (simp add: s1_def L1_def s2_def L2_def)
  have c2: "cache_ok L2 ?ns"
    using cache_ok_go_cache [OF c1 i2] nth2 by (simp add: L2_def)
  have L2s: "lists s2 l = Some L2" by (simp add: s2_def)
  have n2: "nodes s2 = nodes s" by (simp add: s2_def s1_def)
  from p1 obtain m where m: "path nxt (nodes s) m zs nxp"
    using path_start unfolding path_append nxp_def by blast
  have "path prv (nodes s) (tail L) (rev ys @ rev zs @ rev xs) None" using p2 by simp
  then obtain m' where m': "path prv (nodes s) m' (rev zs) pvp"
    using path_start unfolding path_append pvp_def by blast
  from path_last [OF m nz] obtain zn2 where
    zn2: "nodes s (last zs) = Some zn2" "nxt zn2 = nxp" by blast
  from path_last [OF m'] nz obtain zn1 where
    zn1: "nodes s (hd zs) = Some zn1" "prv zn1 = pvp" by (auto simp: last_rev)
  have dz: "distinct zs" using dist by simp
  have b2: "zskb L2 + length zs < SIZE_LIMIT" using bound zk by (simp add: L2_def L1_def)
  have m2: "path nxt (nodes s2) m zs nxp" using m n2 by simp
  have mhd: "m = Some (hd zs)" using path_start [OF m] nz by (cases zs) auto
  have cf2: "can_free (flags L2) (freed s2) (map (\<lambda>a. payload_at s2 (Some a)) zs)"
    using cf by (simp add: can_free_def and_free L2_def L1_def s2_def s1_def payload_at_def)
  from erase_loop_ok [OF L2s m2 dz b2 cf2] obtain s3 where
    run: "erase_loop l ?c (Some (hd zs)) s2 = Some s3"
    and ls3: "lists s3 = (lists s)(l \<mapsto> L2\<lparr>pkb := Some (last zs), zskb := zskb L + ?c\<rparr>)"
    and fr3: "\<And>a. a \<notin> set zs \<Longrightarrow> nodes s3 a = nodes s a"
    and pr3: "\<And>a. map_option prv (nodes s3 a) = map_option prv (nodes s a)"
    and pa3: "\<And>a. map_option payload (nodes s3 a) = map_option payload (nodes s a)"
    and pt3: "path nxt (nodes s3) (Some (last zs)) (rev zs) (pkb L)"
    and al3: "brk s3 = brk s" "budget s3 = budget s" "mallocs s3 = mallocs s"
    and fd3: "freed s3 = freed s @ (if flags L AND 1 \<noteq> 0
                              then map (\<lambda>a. payload_at s (Some a)) zs else [])"
    using nz unfolding mhd n2 and_free
    by (auto simp: s2_def s1_def L2_def L1_def first_or_def last_rev payload_at_def
        split: list.splits)
  define L3 where "L3 = L2\<lparr>pkb := Some (last zs), zskb := zskb L + ?c\<rparr>"
  have L3s: "lists s3 l = Some L3" using ls3 by (simp add: L3_def)
  define L4 where "L4 = (if xs = [] then L3\<lparr>head := nxp\<rparr> else L3)"
  define L5 where "L5 = (if ys = [] then L4\<lparr>tail := pvp\<rparr> else L4)"
  define L6 where "L6 = L5\<lparr>size_l := length (xs @ ys)\<rparr>"
  define L7 where "L7 = (if 0 < ?i \<and> 1 < length ys
                         then L6\<lparr>rul := nxp, ruly := ?i, flags := flags L6 OR 2\<rparr>
                         else if ?i \<le> ruly L6 then L6\<lparr>flags := flags L6 AND 1\<rparr> else L6)"
  define h4 where "h4 = (if xs = [] then nodes s3
       else (nodes s3)(last xs := map_option (\<lambda>n. n\<lparr>nxt := nxp\<rparr>) (nodes s3 (last xs))))"
  define h5 where "h5 = (if ys = [] then h4
       else h4(hd ys := map_option (\<lambda>n. n\<lparr>prv := pvp\<rparr>) (h4 (hd ys))))"
  define s' where "s' = s3\<lparr>lists := (lists s)(l \<mapsto> L7), nodes := h5\<rparr>"
  have alloc: "a \<in> set ?ns \<Longrightarrow> nodes s a \<noteq> None" for a by (rule path_alloc [OF p1])
  have ne_x: "last xs \<notin> set zs" "last xs \<notin> set ps" "last xs \<notin> set ys" if "xs \<noteq> []"
    using dist last_in_set [OF that] by auto
  have ne_y: "hd ys \<notin> set zs" "hd ys \<notin> set ps" "hd ys \<notin> set xs" if "ys \<noteq> []"
    using dist hd_in_set [OF that] by auto
  have xlast: "nodes s3 (last xs) \<noteq> None" if "xs \<noteq> []"
    using that alloc [of "last xs"] fr3 [OF ne_x(1) [OF that]] by simp
  have yhd: "h4 (hd ys) \<noteq> None" if "ys \<noteq> []"
    using that alloc [of "hd ys"] fr3 [OF ne_y(1) [OF that]] ne_y(3) [OF that]
    by (cases "xs = []") (auto simp: h4_def)
  have prevs: "pvp \<noteq> None \<longleftrightarrow> xs \<noteq> []" "xs \<noteq> [] \<Longrightarrow> pvp = Some (last xs)"
    unfolding pvp_def by (cases xs rule: rev_cases, simp_all)+
  have nexts: "nxp \<noteq> None \<longleftrightarrow> ys \<noteq> []" "ys \<noteq> [] \<Longrightarrow> nxp = Some (hd ys)"
    unfolding nxp_def by (cases ys, simp_all)+
  have one: "1 \<le> ?i + ?c" using cpos by linarith
  have lt: "?i + ?c < SIZE_LIMIT" using bound by simp
  have szs: "sz_add ?i ?c = ?i + ?c" "sz_sub (?i + ?c) 1 = ?i + ?c - 1"
    "sz_sub (length ?ns) ?c = length (xs @ ys)" "sz_sub (length (xs @ ys)) ?i = length ys"
    using bound sz_sub_simp [OF one lt] by (simp_all add: sz_add_simp sz_sub_simp)
  have fin: "clist_erase (Some l) ?i ?c s = Some s'"
  proof -
    have a: "clist_erase (Some l) ?i ?c s = do {
            s4 \<leftarrow> (if pvp \<noteq> None then upd_node pvp (\<lambda>n. n\<lparr>nxt := nxp\<rparr>) s3
                   else upd_list l (\<lambda>L. L\<lparr>head := nxp\<rparr>) s3);
            s5 \<leftarrow> (if nxp \<noteq> None then upd_node nxp (\<lambda>n. n\<lparr>prv := pvp\<rparr>) s4
                   else upd_list l (\<lambda>L. L\<lparr>tail := pvp\<rparr>) s4);
            s6 \<leftarrow> upd_list l (\<lambda>L. L\<lparr>size_l := sz_sub (size_l L) ?c\<rparr>) s5;
            L6 \<leftarrow> lists s6 l;
            if 0 < ?i \<and> 1 < sz_sub (size_l L6) ?i
            then upd_list l (\<lambda>L. L\<lparr>rul := nxp, ruly := ?i, flags := flags L OR 2\<rparr>) s6
            else if ?i \<le> ruly L6 then upd_list l (\<lambda>L. L\<lparr>flags := flags L AND 1\<rparr>) s6
            else Some s6 }"
      using L sz szs(1,2) cpos go1 go2 zn1 zn2 run
      by (simp add: clist_erase_def s1_def s2_def)
    obtain pn where pn: "xs \<noteq> [] \<Longrightarrow> nodes s3 (last xs) = Some pn"
      using xlast by (cases "xs = []") auto
    obtain yn where yn: "ys \<noteq> [] \<Longrightarrow> h4 (hd ys) = Some yn"
      using yhd by (cases "ys = []") auto
    have hl: "head L3 = head L" "tail L3 = tail L" "size_l L3 = size_l L"
      by (simp_all add: L3_def L2_def L1_def)
    show ?thesis
      unfolding a
      using L3s prevs nexts pn yn szs(3,4) sz hl
      by (cases "xs = []"; cases "ys = []")
        (simp_all add: upd_list_Some upd_node_map s'_def h5_def h4_def L7_def L6_def L5_def L4_def
          ls3 L3_def)
  qed
  have nexy: "hd ys \<noteq> last xs" if "xs \<noteq> []" "ys \<noteq> []"
    using ne_y(3) [OF that(2)] last_in_set [OF that(1)] by auto
  have nx5: "map_option nxt (h5 a) =
      (if xs \<noteq> [] \<and> a = last xs then Some nxp else map_option nxt (nodes s3 a))" for a
  proof (cases "xs = []")
    case True
    then show ?thesis by (cases "nodes s3 a") (auto simp: h5_def h4_def)
  next
    case False
    from xlast [OF False] obtain pn where "nodes s3 (last xs) = Some pn" by auto
    then show ?thesis
      using False nexy [OF False] by (cases "nodes s3 a") (auto simp: h5_def h4_def)
  qed
  have pv5: "map_option prv (h5 a) =
      (if ys \<noteq> [] \<and> a = hd ys then Some pvp else map_option prv (nodes s3 a))" for a
  proof (cases "ys = []")
    case True
    then show ?thesis by (cases "nodes s3 a") (auto simp: h5_def h4_def)
  next
    case False
    from yhd [OF False] obtain yn where "h4 (hd ys) = Some yn" by auto
    then show ?thesis
      using False by (cases "nodes s3 a") (auto simp: h5_def h4_def)
  qed
  have pa4: "map_option payload (h4 a) = map_option payload (nodes s3 a)" for a
    unfolding h4_def by (cases "xs = []") (simp_all add: option.map_comp comp_def)
  have "map_option payload (h5 a) = map_option payload (h4 a)" for a
    unfolding h5_def by (cases "ys = []") (simp_all add: option.map_comp comp_def)
  then have "map_option payload (h5 a) = map_option payload (nodes s3 a)" for a
    by (simp only: pa4)
  then have pa5: "map_option payload (h5 a) = map_option payload (nodes s a)" for a
    by (simp only: pa3)
  have fr5: "h5 a = nodes s a" if "a \<notin> set ?ns" for a
  proof -
    have "xs \<noteq> [] \<Longrightarrow> a \<noteq> last xs" "ys \<noteq> [] \<Longrightarrow> a \<noteq> hd ys"
      using that last_in_set [of xs] hd_in_set [of ys] by auto
    moreover have "nodes s3 a = nodes s a" using that by (intro fr3) simp
    ultimately show ?thesis by (simp add: h5_def h4_def)
  qed
  have q1: "path nxt h5 (if xs = [] then first_or ys None else head L) (xs @ ys) None"
  proof (rule path_remove_seg [where h' = h5, OF p1])
    show "distinct ?ns" using dist by auto
    show "map_option nxt (h5 a) = map_option nxt (nodes s a)"
      if "a \<in> set (butlast xs) \<union> set ys" for a
    proof -
      have "a \<notin> set zs" using that dist by (auto dest: in_set_butlastD)
      moreover have "a \<noteq> last xs" if x: "xs \<noteq> []"
        using \<open>a \<in> set (butlast xs) \<union> set ys\<close> last_notin_butlast [OF _ x] ne_x(3) [OF x]
          dist by auto
      ultimately show ?thesis by (auto simp: nx5 fr3)
    qed
    show "map_option nxt (h5 (last xs)) = Some (first_or ys None)" if "xs \<noteq> []"
      using that by (simp add: nx5 nxp_def)
  qed
  have q2: "path prv h5 (if ys = [] then first_or (rev xs) None else tail L) (rev (xs @ ys)) None"
  proof -
    have p2': "path prv (nodes s) (tail L) (rev ys @ rev zs @ rev xs) None" using p2 by simp
    have "path prv h5 (if rev ys = [] then first_or (rev xs) None else tail L)
            (rev ys @ rev xs) None"
    proof (rule path_remove_seg [where h' = h5, OF p2'])
      show "distinct (rev ys @ rev zs @ rev xs)" using dist by auto
      show "map_option prv (h5 a) = map_option prv (nodes s a)"
        if "a \<in> set (butlast (rev ys)) \<union> set (rev xs)" for a
      proof -
        have "ys \<noteq> [] \<Longrightarrow> a \<noteq> hd ys"
          using that dist by (cases ys) (auto simp: butlast_rev)
        then show ?thesis by (auto simp: pv5 pr3)
      qed
      show "map_option prv (h5 (last (rev ys))) = Some (first_or (rev xs) None)"
        if "rev ys \<noteq> []"
        using that by (simp add: pv5 pvp_def last_rev)
    qed
    then show ?thesis by simp
  qed
  have q3: "path nxt h5 (Some (last zs)) (rev zs @ ps) None"
  proof -
    have "path nxt (nodes s3) (pkb L) ps None = path nxt (nodes s) (pkb L) ps None"
      using dist by (intro path_frame fr3) auto
    then have "path nxt (nodes s3) (Some (last zs)) (rev zs @ ps) None"
      using pt3 pp unfolding path_append by blast
    moreover have "path nxt h5 (Some (last zs)) (rev zs @ ps) None
        = path nxt (nodes s3) (Some (last zs)) (rev zs @ ps) None"
      using ne_x by (intro path_cong) (auto simp: nx5)
    ultimately show ?thesis by simp
  qed
  have c7: "cache_ok L7 (xs @ ys)"
  proof (cases "0 < ?i \<and> 1 < length ys")
    case True
    then show ?thesis using nexts(2) by (cases ys) (auto simp: L7_def cache_ok_def or2_and2 nth_append)
  next
    case False
    have r6: "ruly L6 = ruly L2" "rul L6 = rul L2" "flags L6 = flags L2"
      by (simp_all add: L6_def L5_def L4_def L3_def)
    show ?thesis
    proof (cases "?i \<le> ruly L6")
      case True
      then show ?thesis using False by (auto simp: L7_def cache_ok_def and1_and2)
    next
      case b: False
      then show ?thesis using False c2 r6
        by (auto simp: L7_def cache_ok_def nth_append)
    qed
  qed
  have f7: "head L7 = (if xs = [] then nxp else head L)"
    "tail L7 = (if ys = [] then pvp else tail L)" "size_l L7 = length (xs @ ys)"
    "pkb L7 = Some (last zs)" "zskb L7 = zskb L + ?c" "type_size L7 = type_size L"
    "flags L7 AND 1 = flags L AND 1"
    by (simp_all add: L7_def L6_def L5_def L4_def L3_def L2_def L1_def or2_and1 and1_and1)
  have d7: "distinct ((xs @ ys) @ rev zs @ ps)" using dist by auto
  have v7: "list_all valid_addr ((xs @ ys) @ rev zs @ ps)"
    using va unfolding list_all_iff by auto
  have q1': "path nxt h5 (head L7) (xs @ ys) None"
    using q1 unfolding f7(1) nxp_def by simp
  have q2': "path prv h5 (tail L7) (rev (xs @ ys)) None"
    using q2 unfolding f7(2) pvp_def by simp
  have q3': "path nxt h5 (pkb L7) (rev zs @ ps) None"
    using q3 unfolding f7(4) by simp
  have z7: "zskb L7 = length (rev zs @ ps)" using f7(5) zk by simp
  have n7: "nodes s' = h5" by (simp add: s'_def)
  have w7: "wf_L (nodes s') L7 (xs @ ys) (rev zs @ ps)"
    unfolding wf_L_def n7 using q1' q2' q3' c7 f7(3) d7 v7 z7 by blast
  show ?thesis
    using fin w7 f7(6,7) fr5 pa5 al3 fd3
    by (intro exI [of _ s'] exI [of _ L7]) (simp add: s'_def)
qed

lemma heap_ok_frame:
  assumes "heap_ok s" "brk s' = brk s" "\<And>a. nodes s a = None \<Longrightarrow> nodes s' a = None"
  shows "heap_ok s'"
  using assms by (simp add: heap_ok_def)

lemma payload_at_eq:
  "map_option payload (nodes s' a) = map_option payload (nodes s a) \<Longrightarrow>
   payload_at s' (Some a) = payload_at s (Some a)"
  by (cases "nodes s a"; cases "nodes s' a") (simp_all add: payload_at_def)

lemma clist_erase_ok:
  fixes s :: "'a mem"
  assumes w: "wf_list s l ns ps" and b: "idx + count \<le> length ns" and c: "0 < count"
    and fo: "frees_ok s l (take count (drop idx ns))"
  shows "\<exists>s'. clist_erase (Some l) idx count s = Some s'
     \<and> wf_list s' l (take idx ns @ drop (idx + count) ns) (rev (take count (drop idx ns)) @ ps)
     \<and> (\<forall>a. payload_at s' (Some a) = payload_at s (Some a))
     \<and> same_outside s s' l (set ns)
     \<and> brk s' = brk s \<and> budget s' = budget s \<and> mallocs s' = mallocs s
     \<and> (heap_ok s \<longrightarrow> heap_ok s')
     \<and> (\<exists>L. lists s l = Some L \<and>
          freed s' = freed s @ (if flags L AND 1 \<noteq> 0
             then map (\<lambda>a. payload_at s (Some a)) (take count (drop idx ns)) else []))
     \<and> (node_fits s l \<longrightarrow> node_fits s' l)
     \<and> (\<forall>rs. frees_ok s l (rs @ take count (drop idx ns)) \<longrightarrow> frees_ok s' l rs)"
proof -
  from wf_listD [OF w] obtain L where L: "lists s l = Some L" and wL: "wf_L (nodes s) L ns ps"
    by blast
  define xs where "xs = take idx ns"
  define zs where "zs = take count (drop idx ns)"
  define ys where "ys = drop (idx + count) ns"
  have ns: "ns = xs @ zs @ ys"
    unfolding xs_def zs_def ys_def
    by (metis append_take_drop_id drop_drop add.commute)
  have len: "length xs = idx" "length zs = count" using b by (simp_all add: xs_def zs_def)
  have nz: "zs \<noteq> []" using len(2) c by auto
  have wL': "wf_L (nodes s) L (xs @ zs @ ys) ps" using wL ns by simp
  have cf: "can_free (flags L) (freed s) (map (\<lambda>a. payload_at s (Some a)) zs)"
    using fo L by (simp add: frees_ok_def zs_def)
  from erase_ok_split [OF L wL' nz cf] obtain s' L' where
    run: "clist_erase (Some l) idx count s = Some s'"
    and ls: "lists s' = (lists s)(l \<mapsto> L')"
    and w': "wf_L (nodes s') L' (xs @ ys) (rev zs @ ps)"
    and tf: "type_size L' = type_size L" "flags L' AND 1 = flags L AND 1"
    and fr: "\<And>a. a \<notin> set ns \<Longrightarrow> nodes s' a = nodes s a"
    and pa: "\<And>a. map_option payload (nodes s' a) = map_option payload (nodes s a)"
    and al: "brk s' = brk s" "budget s' = budget s" "mallocs s' = mallocs s"
    and fd: "freed s' = freed s @ (if flags L AND 1 \<noteq> 0
                              then map (\<lambda>a. payload_at s (Some a)) zs else [])"
    unfolding len ns [symmetric] by blast
  have wf': "wf_list s' l (xs @ ys) (rev zs @ ps)"
    using w' ls by (intro wf_listI [of _ _ L']) simp_all
  have so: "same_outside s s' l (set ns)"
    using ls fr by (simp add: same_outside_def)
  have hk: "heap_ok s'" if "heap_ok s"
  proof (rule heap_ok_frame [OF that al(1)])
    fix a assume a: "nodes s a = None"
    have "a \<notin> set ns" using a path_alloc [of nxt "nodes s" "head L" ns None a] wL
      by (auto simp: wf_L_def)
    then show "nodes s' a = None" using fr a by simp
  qed
  have nf: "node_fits s' l" if "node_fits s l"
    using that L ls tf by (simp add: node_fits_def)
  have pe: "(\<lambda>a. payload_at s' (Some a)) = (\<lambda>a. payload_at s (Some a))"
    using payload_at_eq [OF pa] by (intro ext)
  have fr': "frees_ok s' l rs" if "frees_ok s l (rs @ zs)" for rs
    using that L ls tf(2) fd
    by (auto simp: frees_ok_def can_free_def and_free pe)
  show ?thesis
    using run wf' so al hk L fd payload_at_eq [OF pa] nf fr'
    unfolding xs_def zs_def ys_def by blast
qed

lemma clist_erase_noop:
  assumes "lists s l = Some L" "count = 0 \<or> size_l L < idx + count" "idx + count < SIZE_LIMIT"
  shows "clist_erase (Some l) idx count s = Some s"
  using assms by (auto simp: clist_erase_def sz_add_simp)

lemma clist_insert_oob:
  "lists s l = Some L \<Longrightarrow> size_l L < idx \<Longrightarrow>
   clist_insert (Some l) idx pl s = Some (EXIT_FAILURE, s)"
  by (simp add: clist_insert_def)

lemma wf_list_size: "wf_list s l ns ps \<Longrightarrow> \<exists>L. lists s l = Some L \<and> size_l L = length ns \<and> zskb L = length ps"
  by (auto simp: wf_list_def wf_L_def split: option.splits)

lemma wf_list_distinct: "wf_list s l ns ps \<Longrightarrow> distinct (ns @ ps)"
  by (auto simp: wf_list_def wf_L_def split: option.splits)

lemma payloads_insert:
  assumes "distinct (take idx ns @ n # drop idx ns)"
    "\<And>a. a \<noteq> n \<Longrightarrow> payload_at s' (Some a) = payload_at s (Some a)"
  shows "payloads s' (take idx ns @ n # drop idx ns)
         = take idx (payloads s ns) @ payload_at s' (Some n) # drop idx (payloads s ns)"
proof -
  have "n \<notin> set (take idx ns)" "n \<notin> set (drop idx ns)" using assms(1) by auto
  then have "\<And>a. a \<in> set (take idx ns) \<or> a \<in> set (drop idx ns) \<Longrightarrow> a \<noteq> n" by auto
  then show ?thesis
    using assms(2) by (simp add: payloads_def take_map drop_map)
qed

lemma run_inserts_ok:
  fixes s :: "'a mem"
  assumes "heap_ok s" "wf_list s l ns ps" "node_fits s l"
  shows "\<exists>rs s' ns' ps'. run_inserts l ops s = Some (rs, s') \<and> length rs = length ops
     \<and> rs = insert_codes ops (length ns) (length ps) (budget s) (brk s)
     \<and> heap_ok s' \<and> wf_list s' l ns' ps' \<and> node_fits s' l
     \<and> (length ops \<le> length ps \<longrightarrow> mallocs s' = mallocs s)
     \<and> ((\<forall>op \<in> set ops. snd op \<noteq> None) \<longrightarrow>
          payloads s' ns' = model_inserts ops rs (payloads s ns))"
  using assms
proof (induction ops arbitrary: s ns ps)
  case Nil
  then show ?case by auto
next
  case (Cons op ops)
  obtain idx pl where op: "op = (idx, pl)" by (cases op)
  from wf_list_size [OF Cons.prems(2)] obtain L where
    L: "lists s l = Some L" "size_l L = length ns" "zskb L = length ps" by blast
  have "\<exists>r s1 ns1 ps1. clist_insert (Some l) idx pl s = Some (r, s1) \<and> heap_ok s1
      \<and> wf_list s1 l ns1 ps1 \<and> node_fits s1 l \<and> length ps - 1 \<le> length ps1
      \<and> (ps \<noteq> [] \<longrightarrow> mallocs s1 = mallocs s)
      \<and> (pl \<noteq> None \<longrightarrow> payloads s1 ns1
            = (if r = EXIT_SUCCESS then take idx (payloads s ns) @ pl # drop idx (payloads s ns)
               else payloads s ns))
      \<and> insert_codes ((idx, pl) # ops) (length ns) (length ps) (budget s) (brk s)
          = r # insert_codes ops (length ns1) (length ps1) (budget s1) (brk s1)"
  proof (cases "idx \<le> length ns")
    case False
    then have "clist_insert (Some l) idx pl s = Some (EXIT_FAILURE, s)"
      using L by (intro clist_insert_oob [of s l L]) auto
    then show ?thesis using Cons.prems False
      by (intro exI [of _ EXIT_FAILURE] exI [of _ s] exI [of _ ns] exI [of _ ps])
        (simp add: EXIT_FAILURE_def EXIT_SUCCESS_def)
  next
    case True
    from clist_insert_ok [OF Cons.prems(1,2) True Cons.prems(3), of pl] obtain r s1 where
      run: "clist_insert (Some l) idx pl s = Some (r, s1)"
      and res: "if ps = [] \<and> malloc_fails s
        then r = EXIT_FAILURE \<and> s1 = s\<lparr>mallocs := mallocs s + 1\<rparr>
        else r = EXIT_SUCCESS \<and>
          (\<exists>n. n = (if ps = [] then brk s else hd ps)
            \<and> wf_list s1 l (take idx ns @ n # drop idx ns) (tl ps) \<and> heap_ok s1
            \<and> mallocs s1 = (if ps = [] then mallocs s + 1 else mallocs s)
            \<and> payload_at s1 (Some n) = (case pl of Some v \<Rightarrow> Some v | None \<Rightarrow> payload_at s (Some n))
            \<and> (\<forall>a. a \<noteq> n \<longrightarrow> payload_at s1 (Some a) = payload_at s (Some a))
            \<and> same_outside s s1 l (insert n (set ns))
            \<and> freed s1 = freed s \<and> node_fits s1 l
            \<and> budget s1 = (if ps = [] then budget s - 1 else budget s)
            \<and> brk s1 = (if ps = [] then brk s + 1 else brk s)
            \<and> map_option (\<lambda>L. flags L AND 1) (lists s1 l)
                = map_option (\<lambda>L. flags L AND 1) (lists s l))"
      by blast
    show ?thesis
    proof (cases "ps = [] \<and> malloc_fails s")
      case mf: True
      then have r: "r = EXIT_FAILURE" "s1 = s\<lparr>mallocs := mallocs s + 1\<rparr>" using res by simp_all
      have "heap_ok s1" using Cons.prems(1) by (simp add: r heap_ok_def)
      moreover have "wf_list s1 l ns ps"
        using Cons.prems(2) by (auto simp: r wf_list_def split: option.splits)
      moreover have "node_fits s1 l" using Cons.prems(3) by (simp add: r node_fits_def)
      moreover have "payloads s1 ns = payloads s ns"
        by (simp add: r payloads_def payload_at_def node_at_def)
      moreover have "insert_codes ((idx, pl) # ops) (length ns) (length ps) (budget s) (brk s)
          = r # insert_codes ops (length ns) (length ps) (budget s1) (brk s1)"
        using mf True by (auto simp: r malloc_fails_def)
      ultimately show ?thesis
        using run r(1) mf
        by (intro exI [of _ r] exI [of _ s1] exI [of _ ns] exI [of _ ps])
          (simp add: EXIT_FAILURE_def EXIT_SUCCESS_def)
    next
      case ok: False
      then obtain n where r: "r = EXIT_SUCCESS"
        and w1: "wf_list s1 l (take idx ns @ n # drop idx ns) (tl ps)" and h1: "heap_ok s1"
        and m1: "mallocs s1 = (if ps = [] then mallocs s + 1 else mallocs s)"
        and pn: "payload_at s1 (Some n) = (case pl of Some v \<Rightarrow> Some v | None \<Rightarrow> payload_at s (Some n))"
        and po: "\<And>a. a \<noteq> n \<Longrightarrow> payload_at s1 (Some a) = payload_at s (Some a)"
        and nf1: "node_fits s1 l"
        and b1: "budget s1 = (if ps = [] then budget s - 1 else budget s)"
          "brk s1 = (if ps = [] then brk s + 1 else brk s)"
        using res by auto
      have d: "distinct (take idx ns @ n # drop idx ns)"
        using wf_list_distinct [OF w1] by auto
      have pl: "payloads s1 (take idx ns @ n # drop idx ns)
            = take idx (payloads s ns) @ pl # drop idx (payloads s ns)" if "pl \<noteq> None"
        using payloads_insert [OF d po] pn that by auto
      have len1: "length (take idx ns @ n # drop idx ns) = length ns + 1" using True by simp
      have cd: "insert_codes ((idx, pl) # ops) (length ns) (length ps) (budget s) (brk s)
          = r # insert_codes ops (length (take idx ns @ n # drop idx ns)) (length (tl ps))
                  (budget s1) (brk s1)"
        unfolding len1 using ok True by (cases ps) (auto simp: r b1 malloc_fails_def)
      show ?thesis
        using run r w1 h1 m1 nf1 pl cd
        by (intro exI [of _ r] exI [of _ s1] exI [of _ "take idx ns @ n # drop idx ns"]
            exI [of _ "tl ps"]) auto
    qed
  qed
  then obtain r s1 ns1 ps1 where
    run: "clist_insert (Some l) idx pl s = Some (r, s1)" and h1: "heap_ok s1"
    and w1: "wf_list s1 l ns1 ps1" and nf1: "node_fits s1 l"
    and lp: "length ps - 1 \<le> length ps1"
    and m1: "ps \<noteq> [] \<Longrightarrow> mallocs s1 = mallocs s"
    and p1: "pl \<noteq> None \<Longrightarrow> payloads s1 ns1
            = (if r = EXIT_SUCCESS then take idx (payloads s ns) @ pl # drop idx (payloads s ns)
               else payloads s ns)"
    and c1: "insert_codes ((idx, pl) # ops) (length ns) (length ps) (budget s) (brk s)
          = r # insert_codes ops (length ns1) (length ps1) (budget s1) (brk s1)"
    by blast
  from Cons.IH [OF h1 w1 nf1] obtain rs s' ns' ps' where
    run': "run_inserts l ops s1 = Some (rs, s')" and len: "length rs = length ops"
    and c': "rs = insert_codes ops (length ns1) (length ps1) (budget s1) (brk s1)"
    and h': "heap_ok s'" and w': "wf_list s' l ns' ps'" and nf': "node_fits s' l"
    and m': "length ops \<le> length ps1 \<Longrightarrow> mallocs s' = mallocs s1"
    and p': "(\<forall>op \<in> set ops. snd op \<noteq> None) \<Longrightarrow>
          payloads s' ns' = model_inserts ops rs (payloads s1 ns1)"
    by blast
  have "run_inserts l (op # ops) s = Some (r # rs, s')"
    using run run' by (simp add: op)
  moreover have "mallocs s' = mallocs s" if "length (op # ops) \<le> length ps"
    using that m' m1 lp by (cases ps) auto
  moreover have "payloads s' ns' = model_inserts (op # ops) (r # rs) (payloads s ns)"
    if "\<forall>op \<in> set (op # ops). snd op \<noteq> None"
    using that p' p1 by (simp add: op)
  moreover have "insert_codes (op # ops) (length ns) (length ps) (budget s) (brk s) = r # rs"
    unfolding op c1 c' ..
  ultimately show ?case using len h' w' nf'
    apply -
    apply (rule exI [of _ "r # rs"], rule exI [of _ s'], rule exI [of _ ns'],
        rule exI [of _ ps'])
    apply simp
    done
qed

section \<open>Addressing after inserts, and the reuse of pooled nodes\<close>

lemma wf_list_any_cache:
  assumes "wf_list s l ns ps" "lists s l = Some L"
    "f AND 2 = 0 \<or> (j < length ns \<and> r = Some (ns ! j))"
  shows "wf_list (s\<lparr>lists := (lists s)(l \<mapsto> L\<lparr>rul := r, ruly := j, flags := f\<rparr>)\<rparr>) l ns ps"
  using assms by (auto simp: wf_list_def wf_L_def cache_ok_def)

lemma clist_go_ok:
  assumes "wf_list s l ns ps" "idx < length ns"
  shows "\<exists>L. lists s l = Some L
     \<and> clist_go (Some l) idx s
         = Some (Some (ns ! idx), s\<lparr>lists := (lists s)(l \<mapsto> go_cache L idx (Some (ns ! idx)))\<rparr>)
     \<and> wf_list (s\<lparr>lists := (lists s)(l \<mapsto> go_cache L idx (Some (ns ! idx)))\<rparr>) l ns ps"
proof -
  from wf_listD [OF assms(1)] obtain L where L: "lists s l = Some L"
    and w: "wf_L (nodes s) L ns ps" by blast
  have go: "clist_go (Some l) idx s
         = Some (Some (ns ! idx), s\<lparr>lists := (lists s)(l \<mapsto> go_cache L idx (Some (ns ! idx)))\<rparr>)"
    using w assms(2) by (intro clist_go_wf [OF L]) (simp_all add: wf_L_def)
  have "wf_L (nodes s) (go_cache L idx (Some (ns ! idx))) ns ps"
    using w cache_ok_go_cache [of L ns idx] assms(2) by (simp add: wf_L_def)
  then have "wf_list (s\<lparr>lists := (lists s)(l \<mapsto> go_cache L idx (Some (ns ! idx)))\<rparr>) l ns ps"
    by (simp add: wf_list_def)
  then show ?thesis using L go by blast
qed

lemma clist_go_oob:
  "lists s l = Some L \<Longrightarrow> size_l L \<le> idx \<Longrightarrow> clist_go (Some l) idx s = Some (None, s)"
  by (simp add: clist_go_def)

lemma payloads_nth: "i < length ns \<Longrightarrow> payloads s ns ! i = payload_at s (Some (ns ! i))"
  by (simp add: payloads_def)

lemma payload_at_nodes: "nodes t = nodes s \<Longrightarrow> payload_at t p = payload_at s p"
  by (cases p) (simp_all add: payload_at_def node_at_def)

lemma payloads_nodes: "nodes t = nodes s \<Longrightarrow> payloads t ns = payloads s ns"
  by (simp add: payloads_def payload_at_def)

lemma wf_L_payload:
  fixes h :: "addr \<Rightarrow> 'a node option"
  assumes "wf_L h L ns ps" "h a = Some nd"
  shows "wf_L (h(a \<mapsto> nd\<lparr>payload := v\<rparr>)) L ns ps"
proof -
  have n: "map_option nxt ((h(a \<mapsto> nd\<lparr>payload := v\<rparr>)) x) = map_option nxt (h x)" for x
    using assms(2) by simp
  have p: "map_option prv ((h(a \<mapsto> nd\<lparr>payload := v\<rparr>)) x) = map_option prv (h x)" for x
    using assms(2) by simp
  have "path nxt (h(a \<mapsto> nd\<lparr>payload := v\<rparr>)) q as q' = path nxt h q as q'" for q as q'
    by (rule path_cong) (rule n)
  moreover have "path prv (h(a \<mapsto> nd\<lparr>payload := v\<rparr>)) q as q' = path prv h q as q'" for q as q'
    by (rule path_cong) (rule p)
  ultimately show ?thesis using assms(1) by (simp add: wf_L_def)
qed

lemma clist_set_ok:
  fixes s :: "'a mem"
  assumes "wf_list s l ns ps" "idx < length ns"
  shows "\<exists>s'. clist_set (Some l) idx (Some v) s = Some s' \<and> wf_list s' l ns ps
     \<and> payloads s' ns = (payloads s ns)[idx := Some v]
     \<and> (\<forall>a. a \<noteq> ns ! idx \<longrightarrow> nodes s' a = nodes s a)
     \<and> (\<forall>l'. l' \<noteq> l \<longrightarrow> lists s' l' = lists s l')
     \<and> brk s' = brk s \<and> budget s' = budget s \<and> mallocs s' = mallocs s \<and> freed s' = freed s"
proof -
  from clist_go_ok [OF assms] obtain L where L: "lists s l = Some L"
    and go: "clist_go (Some l) idx s
         = Some (Some (ns ! idx), s\<lparr>lists := (lists s)(l \<mapsto> go_cache L idx (Some (ns ! idx)))\<rparr>)"
    and w: "wf_list (s\<lparr>lists := (lists s)(l \<mapsto> go_cache L idx (Some (ns ! idx)))\<rparr>) l ns ps"
    by blast
  define s1 where "s1 = s\<lparr>lists := (lists s)(l \<mapsto> go_cache L idx (Some (ns ! idx)))\<rparr>"
  have w1: "wf_L (nodes s) (go_cache L idx (Some (ns ! idx))) ns ps"
    using w by (simp add: wf_list_def)
  have "path nxt (nodes s) (head L) ns None" using w1 by (simp add: wf_L_def)
  from path_alloc [OF this, of "ns ! idx"] assms(2) obtain nd where
    nd: "nodes s (ns ! idx) = Some nd" by auto
  define s2 where "s2 = s1\<lparr>nodes := (nodes s1)(ns ! idx \<mapsto> nd\<lparr>payload := Some v\<rparr>)\<rparr>"
  have run: "clist_set (Some l) idx (Some v) s = Some s2"
    using go nd by (simp add: clist_set_def upd_node_def s1_def s2_def)
  have w2: "wf_list s2 l ns ps"
    using wf_L_payload [OF w1 nd, of "Some v"] by (simp add: wf_list_def s2_def s1_def)
  have d: "distinct ns" using wf_list_distinct [OF assms(1)] by simp
  have pay: "payloads s2 ns = (payloads s ns)[idx := Some v]"
  proof (rule nth_equalityI)
    show "length (payloads s2 ns) = length ((payloads s ns)[idx := Some v])"
      by (simp add: payloads_def)
    fix i assume "i < length (payloads s2 ns)"
    then have i: "i < length ns" by (simp add: payloads_def)
    show "payloads s2 ns ! i = (payloads s ns)[idx := Some v] ! i"
    proof (cases "i = idx")
      case True
      then show ?thesis using i by (simp add: payloads_def payload_at_def s2_def)
    next
      case False
      then have "ns ! i \<noteq> ns ! idx" using d i assms(2) by (simp add: nth_eq_iff_index_eq)
      then show ?thesis using i False
        by (simp add: payloads_def payload_at_def s2_def s1_def)
    qed
  qed
  show ?thesis
    by (rule exI [of _ s2]) (use run w2 pay in \<open>simp add: s2_def s1_def\<close>)
qed

text \<open>
  C1 (round-trip addressing and cache transparency). Take a well-formed list whose node
  size does not wrap and run any sequence of inserts with payloads on it. The run returns
  with the result codes of \<open>insert_codes\<close>: an insert succeeds whenever its index is at most
  the size and a node is in the pool or \<^verbatim>\<open>malloc\<close> gives one. The chain it leaves holds
  exactly the values of the sequential model \<open>model_inserts\<close> (each successful insert puts
  its value before the element at its index), and the size is the chain's length.
  \<^verbatim>\<open>clist_get\<close> at every index below the size returns the node at that index, whose payload
  is the value at that index in logical order. The same holds whatever the finger cache
  holds (any flags, and when the validity bit is set any cached index with the node at
  that index), and there \<^verbatim>\<open>clist_set\<close> replaces exactly that value.
\<close>

theorem get_after_inserts:
  fixes s :: "'a mem"
  assumes "heap_ok s" "wf_list s l ns ps" "node_fits s l"
  shows "\<exists>s' ns' ps' L'.
       run_inserts l (map (\<lambda>(i, v). (i, Some v)) ops) s
         = Some (insert_codes (map (\<lambda>(i, v). (i, Some v)) ops)
                   (length ns) (length ps) (budget s) (brk s), s')
     \<and> wf_list s' l ns' ps' \<and> lists s' l = Some L'
     \<and> payloads s' ns' = model_inserts (map (\<lambda>(i, v). (i, Some v)) ops)
          (insert_codes (map (\<lambda>(i, v). (i, Some v)) ops)
             (length ns) (length ps) (budget s) (brk s))
          (payloads s ns)
     \<and> clist_size (Some l) s' = Some (length ns')
     \<and> (\<forall>i. i < length ns' \<longrightarrow>
          (\<exists>t'. clist_get (Some l) i s' = Some (Some (ns' ! i), t')
              \<and> payload_at t' (Some (ns' ! i)) = payloads s' ns' ! i))
     \<and> (\<forall>i r j f v. i < length ns' \<and> (f AND 2 = 0 \<or> j < length ns' \<and> r = Some (ns' ! j)) \<longrightarrow>
          (\<exists>t'. clist_get (Some l) i
                   (s'\<lparr>lists := (lists s')(l \<mapsto> L'\<lparr>rul := r, ruly := j, flags := f\<rparr>)\<rparr>)
                 = Some (Some (ns' ! i), t')
              \<and> payload_at t' (Some (ns' ! i)) = payloads s' ns' ! i)
        \<and> (\<exists>t'. clist_set (Some l) i (Some v)
                   (s'\<lparr>lists := (lists s')(l \<mapsto> L'\<lparr>rul := r, ruly := j, flags := f\<rparr>)\<rparr>)
                 = Some t'
              \<and> payloads t' ns' = (payloads s' ns')[i := Some v]))"
proof -
  let ?ops = "map (\<lambda>(i, v). (i, Some v)) ops"
  let ?rs = "insert_codes ?ops (length ns) (length ps) (budget s) (brk s)"
  have some: "\<forall>op \<in> set ?ops. snd op \<noteq> None" by auto
  from run_inserts_ok [OF assms, of ?ops] some obtain s' ns' ps' where
    run: "run_inserts l ?ops s = Some (?rs, s')" and w: "wf_list s' l ns' ps'"
    and p: "payloads s' ns' = model_inserts ?ops ?rs (payloads s ns)"
    by blast
  from wf_list_size [OF w] obtain L' where L': "lists s' l = Some L'" "size_l L' = length ns'"
    by blast
  have sz: "clist_size (Some l) s' = Some (length ns')" using L' by (simp add: clist_size_def)
  have here: "\<exists>t'. clist_get (Some l) i s' = Some (Some (ns' ! i), t')
              \<and> payload_at t' (Some (ns' ! i)) = payloads s' ns' ! i"
    if i: "i < length ns'" for i
  proof -
    from clist_go_ok [OF w i] obtain t' where
      g: "clist_get (Some l) i s' = Some (Some (ns' ! i), t')" and n: "nodes t' = nodes s'"
      by (auto simp: clist_get_def)
    have "payload_at t' (Some (ns' ! i)) = payloads s' ns' ! i"
      using payload_at_nodes [OF n, of "Some (ns' ! i)"] i by (simp add: payloads_nth)
    then show ?thesis using g by blast
  qed
  have get: "(\<exists>t'. clist_get (Some l) i
                   (s'\<lparr>lists := (lists s')(l \<mapsto> L'\<lparr>rul := r, ruly := j, flags := f\<rparr>)\<rparr>)
                 = Some (Some (ns' ! i), t')
              \<and> payload_at t' (Some (ns' ! i)) = payloads s' ns' ! i)
        \<and> (\<exists>t'. clist_set (Some l) i (Some v)
                   (s'\<lparr>lists := (lists s')(l \<mapsto> L'\<lparr>rul := r, ruly := j, flags := f\<rparr>)\<rparr>)
                 = Some t'
              \<and> payloads t' ns' = (payloads s' ns')[i := Some v])"
    if i: "i < length ns'" and c: "f AND 2 = 0 \<or> j < length ns' \<and> r = Some (ns' ! j)"
    for i r j f v
  proof -
    define sc where "sc = s'\<lparr>lists := (lists s')(l \<mapsto> L'\<lparr>rul := r, ruly := j, flags := f\<rparr>)\<rparr>"
    have wc: "wf_list sc l ns' ps'"
      unfolding sc_def using w L'(1) c by (rule wf_list_any_cache)
    have pc: "payloads sc ns' = payloads s' ns'"
      by (rule payloads_nodes) (simp add: sc_def)
    from clist_go_ok [OF wc i] obtain t' where
      g: "clist_get (Some l) i sc = Some (Some (ns' ! i), t')" and n: "nodes t' = nodes sc"
      by (auto simp: clist_get_def)
    have "payload_at t' (Some (ns' ! i)) = payloads s' ns' ! i"
      using payload_at_nodes [OF n, of "Some (ns' ! i)"] i
        arg_cong [OF pc, of "\<lambda>xs. xs ! i"] by (simp add: payloads_nth)
    then have 1: "\<exists>t'. clist_get (Some l) i sc = Some (Some (ns' ! i), t')
              \<and> payload_at t' (Some (ns' ! i)) = payloads s' ns' ! i"
      using g by blast
    from clist_set_ok [OF wc i, of v] pc
    have 2: "\<exists>t'. clist_set (Some l) i (Some v) sc = Some t'
              \<and> payloads t' ns' = (payloads s' ns')[i := Some v]"
      by auto
    show ?thesis using 1 2 unfolding sc_def by (rule conjI)
  qed
  have all0: "\<forall>i. i < length ns' \<longrightarrow>
          (\<exists>t'. clist_get (Some l) i s' = Some (Some (ns' ! i), t')
              \<and> payload_at t' (Some (ns' ! i)) = payloads s' ns' ! i)"
    by (intro allI impI, rule here)
  have all: "\<forall>i r j f v. i < length ns' \<and> (f AND 2 = 0 \<or> j < length ns' \<and> r = Some (ns' ! j)) \<longrightarrow>
          (\<exists>t'. clist_get (Some l) i
                   (s'\<lparr>lists := (lists s')(l \<mapsto> L'\<lparr>rul := r, ruly := j, flags := f\<rparr>)\<rparr>)
                 = Some (Some (ns' ! i), t')
              \<and> payload_at t' (Some (ns' ! i)) = payloads s' ns' ! i)
        \<and> (\<exists>t'. clist_set (Some l) i (Some v)
                   (s'\<lparr>lists := (lists s')(l \<mapsto> L'\<lparr>rul := r, ruly := j, flags := f\<rparr>)\<rparr>)
                 = Some t'
              \<and> payloads t' ns' = (payloads s' ns')[i := Some v])"
    by (intro allI impI, elim conjE, rule get)
  show ?thesis
    by (rule exI [of _ s'], rule exI [of _ ns'], rule exI [of _ ps'],
        rule exI [of _ L'], intro conjI run w L'(1) p sz all0 all)
qed



lemma heap_ok_empty: "heap_ok empty_mem"
  by (simp add: heap_ok_def empty_mem_def)

lemma wf_empty: "wf_list empty_mem 100 [] []"
  by (simp add: wf_list_def wf_L_def empty_mem_def empty_list_def cache_ok_def)

lemma node_fits_empty: "node_fits empty_mem 100"
  by (simp add: node_fits_def empty_mem_def empty_list_def sizeof_node_def sizeof_ptr_def
      SIZE_LIMIT_def)



theorem get_after_inserts_witness:
  "heap_ok empty_mem \<and> wf_list empty_mem 100 [] [] \<and> node_fits empty_mem 100
   \<and> (\<exists>s' ns' ps'.
       run_inserts 100 [(0, Some 10), (1, Some 20), (0, Some 5)] empty_mem
         = Some ([EXIT_SUCCESS, EXIT_SUCCESS, EXIT_SUCCESS], s')
     \<and> wf_list s' 100 ns' ps'
     \<and> payloads s' ns' = [Some 5, Some 10, Some 20]
     \<and> clist_size (Some 100) s' = Some 3
     \<and> (\<exists>t'. clist_get (Some 100) 0 s' = Some (Some (ns' ! 0), t')
              \<and> payload_at t' (Some (ns' ! 0)) = Some 5)
     \<and> (\<exists>t'. clist_get (Some 100) 1 s' = Some (Some (ns' ! 1), t')
              \<and> payload_at t' (Some (ns' ! 1)) = Some 10)
     \<and> (\<exists>t'. clist_get (Some 100) 2 s' = Some (Some (ns' ! 2), t')
              \<and> payload_at t' (Some (ns' ! 2)) = Some 20))"
proof -
  have ops: "map (\<lambda>(i, v). (i, Some v)) [(0, 10), (1, 20), (0, 5 :: nat)]
      = [(0 :: nat, Some 10), (1, Some 20), (0, Some 5)]" by simp
  have cd: "insert_codes [(0 :: nat, Some (10 :: nat)), (1, Some 20), (0, Some 5)]
      (length ([] :: addr list)) (length ([] :: addr list)) (budget empty_mem) (brk empty_mem)
      = [EXIT_SUCCESS, EXIT_SUCCESS, EXIT_SUCCESS]"
    by (simp add: empty_mem_def SIZE_LIMIT_def)
  have md: "model_inserts [(0 :: nat, Some (10 :: nat)), (1, Some 20), (0, Some 5)]
      [EXIT_SUCCESS, EXIT_SUCCESS, EXIT_SUCCESS] (payloads empty_mem [])
      = [Some 5, Some 10, Some 20]"
    by (simp add: payloads_def)
  from get_after_inserts [OF heap_ok_empty wf_empty node_fits_empty,
      of "[(0, 10), (1, 20), (0, 5)]"]
  obtain s' ns' ps' where
    run: "run_inserts 100 [(0, Some 10), (1, Some 20), (0, Some 5)] empty_mem
         = Some ([EXIT_SUCCESS, EXIT_SUCCESS, EXIT_SUCCESS], s')"
    and w: "wf_list s' 100 ns' ps'"
    and p: "payloads s' ns' = [Some 5, Some 10, Some 20]"
    and sz: "clist_size (Some 100) s' = Some (length ns')"
    and g: "\<And>i. i < length ns' \<Longrightarrow>
          \<exists>t'. clist_get (Some 100) i s' = Some (Some (ns' ! i), t')
              \<and> payload_at t' (Some (ns' ! i)) = payloads s' ns' ! i"
    unfolding ops cd md by blast
  have len: "length ns' = 3" using arg_cong [OF p, of length] by (simp add: payloads_def)
  have g0: "\<exists>t'. clist_get (Some 100) 0 s' = Some (Some (ns' ! 0), t')
              \<and> payload_at t' (Some (ns' ! 0)) = Some 5"
    using g [of 0] len by (simp add: p)
  have g1: "\<exists>t'. clist_get (Some 100) 1 s' = Some (Some (ns' ! 1), t')
              \<and> payload_at t' (Some (ns' ! 1)) = Some 10"
    using g [of 1] len by (simp add: p)
  have g2: "\<exists>t'. clist_get (Some 100) 2 s' = Some (Some (ns' ! 2), t')
              \<and> payload_at t' (Some (ns' ! 2)) = Some 20"
    using g [of 2] len by (simp add: p)
  have sz3: "clist_size (Some 100) s' = Some 3" using sz len by simp
  show ?thesis
    using heap_ok_empty wf_empty node_fits_empty run w p sz3 g0 g1 g2 by blast
qed


section \<open>Filtering\<close>

lemma filter_run_pure:
  "filter_run (\<lambda>a e. (g a, e @ [h a])) as env
   = (rev (filter (\<lambda>a. g a \<noteq> 0) as), rev (filter (\<lambda>a. g a = 0) as), env @ map h as)"
  by (induction as arbitrary: env) simp_all

lemma same_outside_trans:
  "same_outside s s1 l A \<Longrightarrow> same_outside s1 s2 l B \<Longrightarrow> A \<subseteq> C \<Longrightarrow> B \<subseteq> C \<Longrightarrow>
   same_outside s s2 l C"
  unfolding same_outside_def by (metis subsetD)

lemma wf_list_bound:
  assumes "wf_list s l ns ps"
  shows "length ns + length ps < SIZE_LIMIT"
proof -
  from wf_listD [OF assms] obtain L where "wf_L (nodes s) L ns ps" by blast
  then have "distinct (ns @ ps)" "list_all valid_addr (ns @ ps)" by (simp_all add: wf_L_def)
  from length_bound [OF this] show ?thesis by simp
qed

lemma same_outside_go:
  "same_outside s (s\<lparr>lists := (lists s)(l \<mapsto> L)\<rparr>) l A"
  by (simp add: same_outside_def)

lemma frees_ok_go:
  "lists s l = Some L \<Longrightarrow>
   frees_ok (s\<lparr>lists := (lists s)(l \<mapsto> go_cache L i p)\<rparr>) l as = frees_ok s l as"
  by (simp add: frees_ok_def can_free_def and_free payload_at_def)

lemma frees_ok_append:
  "frees_ok s l (as @ bs) \<Longrightarrow> frees_ok s l as \<and> frees_ok s l bs"
  by (auto simp: frees_ok_def can_free_def split: option.splits)

lemma filter_loop_ok:
  fixes s :: "'a mem"
  assumes "wf_list s l (xs @ ys) ps" "length xs = n" "0 < n \<longrightarrow> idx = n - 1"
    "frees_ok s l xs"
  shows "\<exists>d s'. filter_loop l f n i idx del env s
            = Some (d, snd (snd (filter_run (\<lambda>a. f (payload_at s (Some a))) (rev xs) env)), s')
     \<and> wf_list s' l (fst (filter_run (\<lambda>a. f (payload_at s (Some a))) (rev xs) env) @ ys)
          (fst (snd (filter_run (\<lambda>a. f (payload_at s (Some a))) (rev xs) env)) @ ps)
     \<and> (\<forall>a. payload_at s' (Some a) = payload_at s (Some a))
     \<and> same_outside s s' l (set (xs @ ys))
     \<and> brk s' = brk s \<and> budget s' = budget s \<and> mallocs s' = mallocs s
     \<and> (heap_ok s \<longrightarrow> heap_ok s')"
  using assms
proof (induction n arbitrary: xs ys ps s i idx del env)
  case 0
  then show ?case by (simp add: same_outside_def)
next
  case (Suc n)
  from Suc.prems(2) obtain xs' a where xs: "xs = xs' @ [a]" and n: "length xs' = n"
    by (cases xs rule: rev_cases) auto
  have idx: "idx = n" using Suc.prems(3) by simp
  have w: "wf_list s l (xs' @ a # ys) ps" using Suc.prems(1) xs by simp
  have lt: "n < length (xs' @ a # ys)" using n by simp
  have nth: "(xs' @ a # ys) ! n = a" using n by (simp add: nth_append)
  from clist_go_ok [OF w lt] obtain L where L: "lists s l = Some L"
    and go: "clist_go (Some l) n s = Some (Some a, s\<lparr>lists := (lists s)(l \<mapsto> go_cache L n (Some a))\<rparr>)"
    and w1: "wf_list (s\<lparr>lists := (lists s)(l \<mapsto> go_cache L n (Some a))\<rparr>) l (xs' @ a # ys) ps"
    by (auto simp: nth)
  define s1 where "s1 = s\<lparr>lists := (lists s)(l \<mapsto> go_cache L n (Some a))\<rparr>"
  have w1': "wf_list s1 l (xs' @ a # ys) ps" using w1 by (simp add: s1_def)
  have go': "clist_go (Some l) n s = Some (Some a, s1)" using go by (simp add: s1_def)
  from wf_listD [OF w] have "path nxt (nodes s) (head L) (xs' @ a # ys) None"
    using L by (auto simp: wf_L_def)
  from path_alloc [OF this, of a] obtain nd where nd: "nodes s a = Some nd" by auto
  have nd1: "node_at s1 (Some a) = Some nd" using nd by (simp add: s1_def)
  have pay: "payload_at s (Some a) = payload nd" using nd by (simp add: payload_at_def)
  have p1: "payload_at s1 (Some b) = payload_at s (Some b)" for b
    by (simp add: payload_at_def s1_def)
  have so1: "same_outside s s1 l (set (xs @ ys))" unfolding s1_def by (rule same_outside_go)
  have fo1: "frees_ok s1 l (xs' @ [a])"
    using Suc.prems(4) unfolding s1_def xs by (simp only: frees_ok_go [OF L])
  have fo1a: "frees_ok s1 l xs'" "frees_ok s1 l [a]"
    using frees_ok_append [OF fo1] by simp_all
  have lb: "length (xs' @ a # ys) < SIZE_LIMIT"
    using wf_list_bound [OF w] by simp
  have sub: "0 < n \<longrightarrow> sz_sub idx 1 = n - 1"
    using lb n idx by (auto simp: sz_sub_simp)
  let ?r = "f (payload nd) env"
  let ?g = "\<lambda>a. f (payload_at s (Some a))"
  obtain K D E where fr: "filter_run ?g (rev xs') (snd ?r) = (K, D, E)"
    by (metis prod_cases3)
  show ?case
  proof (cases "fst ?r = 0")
    case True
    have frt: "filter_run ?g (rev xs) env = (K, D @ [a], E)"
      using fr True by (simp add: xs pay)
    have b: "n + 1 \<le> length (xs' @ a # ys)" using n by simp
    have fe: "frees_ok s1 l (take 1 (drop n (xs' @ a # ys)))" using fo1a(2) n by simp
    have "0 < (1 :: nat)" by simp
    from clist_erase_ok [OF w1' b this fe] obtain s2 where
      er: "clist_erase (Some l) n 1 s1 = Some s2"
      and w2: "wf_list s2 l (take n (xs' @ a # ys) @ drop (n + 1) (xs' @ a # ys))
                 (rev (take 1 (drop n (xs' @ a # ys))) @ ps)"
      and p2: "\<forall>b. payload_at s2 (Some b) = payload_at s1 (Some b)"
      and so2: "same_outside s1 s2 l (set (xs' @ a # ys))"
      and r2: "brk s2 = brk s1" "budget s2 = budget s1" "mallocs s2 = mallocs s1"
        "heap_ok s1 \<longrightarrow> heap_ok s2"
      and f2: "\<forall>rs. frees_ok s1 l (rs @ take 1 (drop n (xs' @ a # ys))) \<longrightarrow> frees_ok s2 l rs"
      by blast
    have fo2: "frees_ok s2 l xs'" using f2 fo1 n by simp
    have w2': "wf_list s2 l (xs' @ ys) (a # ps)" using w2 n by simp
    have pf: "(\<lambda>b. f (payload_at s2 (Some b))) = ?g"
      using p2 p1 by simp
    from Suc.IH [OF w2' n sub fo2, of "sz_add i 1" i "snd ?r"] obtain d s' where
      fl: "filter_loop l f n (sz_add i 1) (sz_sub idx 1) i (snd ?r) s2 = Some (d, E, s')"
      and w3: "wf_list s' l (K @ ys) (D @ a # ps)"
      and p3: "\<forall>b. payload_at s' (Some b) = payload_at s2 (Some b)"
      and so3: "same_outside s2 s' l (set (xs' @ ys))"
      and r3: "brk s' = brk s2" "budget s' = budget s2" "mallocs s' = mallocs s2"
        "heap_ok s2 \<longrightarrow> heap_ok s'"
      unfolding pf fr fst_conv snd_conv by blast
    have run: "filter_loop l f (Suc n) i idx del env s = Some (d, E, s')"
      using go' nd1 True er fl by (simp add: idx)
    have w4: "wf_list s' l (K @ ys) ((D @ [a]) @ ps)" using w3 by simp
    have pa: "\<forall>b. payload_at s' (Some b) = payload_at s (Some b)"
      using p3 p2 p1 by simp
    have so: "same_outside s s' l (set (xs @ ys))"
      using same_outside_trans [OF same_outside_trans [OF so1 so2 subset_refl] so3, of "set (xs @ ys)"]
      by (auto simp: xs)
    have h: "heap_ok s \<longrightarrow> heap_ok s'"
      using r2(4) r3(4) by (simp add: heap_ok_def s1_def)
    have q: "brk s' = brk s" "budget s' = budget s" "mallocs s' = mallocs s"
      using r2 r3 by (simp_all add: s1_def)
    show ?thesis unfolding frt fst_conv snd_conv
      using run w4 pa so q h by blast
  next
    case False
    have frt: "filter_run ?g (rev xs) env = (K @ [a], D, E)"
      using fr False by (simp add: xs pay)
    have w2': "wf_list s1 l (xs' @ (a # ys)) ps" using w1' by simp
    have pf: "(\<lambda>b. f (payload_at s1 (Some b))) = ?g"
      using p1 by simp
    from Suc.IH [OF w2' n sub fo1a(1), of "sz_add i 1" del "snd ?r"] obtain d s' where
      fl: "filter_loop l f n (sz_add i 1) (sz_sub idx 1) del (snd ?r) s1 = Some (d, E, s')"
      and w3: "wf_list s' l (K @ a # ys) (D @ ps)"
      and p3: "\<forall>b. payload_at s' (Some b) = payload_at s1 (Some b)"
      and so3: "same_outside s1 s' l (set (xs' @ a # ys))"
      and r3: "brk s' = brk s1" "budget s' = budget s1" "mallocs s' = mallocs s1"
        "heap_ok s1 \<longrightarrow> heap_ok s'"
      unfolding pf fr fst_conv snd_conv by blast
    have run: "filter_loop l f (Suc n) i idx del env s = Some (d, E, s')"
      using go' nd1 False fl by (simp add: idx)
    have w4: "wf_list s' l ((K @ [a]) @ ys) (D @ ps)" using w3 by simp
    have pa: "\<forall>b. payload_at s' (Some b) = payload_at s (Some b)"
      using p3 p1 by simp
    have so: "same_outside s s' l (set (xs @ ys))"
      using same_outside_trans [OF so1 so3, of "set (xs @ ys)"] by (auto simp: xs)
    have h: "heap_ok s \<longrightarrow> heap_ok s'"
      using r3(4) by (simp add: heap_ok_def s1_def)
    have q: "brk s' = brk s" "budget s' = budget s" "mallocs s' = mallocs s"
      using r3 by (simp_all add: s1_def)
    show ?thesis unfolding frt fst_conv snd_conv
      using run w4 pa so q h by blast
  qed
qed

lemma wf_list_invalidate:
  assumes "wf_list s l ns ps" "lists s l = Some L"
  shows "wf_list (s\<lparr>lists := (lists s)(l \<mapsto> L\<lparr>flags := flags L AND 1\<rparr>)\<rparr>) l ns ps"
  using assms by (simp add: wf_list_def wf_L_def cache_ok_def and1_and2)

lemma clist_filter_ok:
  fixes s :: "'a mem"
  assumes w: "wf_list s l ns ps" and fo: "frees_ok s l ns"
  shows "\<exists>s'. clist_filter (Some l) (Some f) env s
            = Some (snd (snd (filter_run (\<lambda>a. f (payload_at s (Some a))) (rev ns) env)), s')
     \<and> wf_list s' l (fst (filter_run (\<lambda>a. f (payload_at s (Some a))) (rev ns) env))
          (fst (snd (filter_run (\<lambda>a. f (payload_at s (Some a))) (rev ns) env)) @ ps)
     \<and> (\<forall>a. payload_at s' (Some a) = payload_at s (Some a))
     \<and> same_outside s s' l (set ns)
     \<and> brk s' = brk s \<and> budget s' = budget s \<and> mallocs s' = mallocs s
     \<and> (heap_ok s \<longrightarrow> heap_ok s')"
proof -
  let ?g = "\<lambda>a. f (payload_at s (Some a))"
  obtain K D E where fr: "filter_run ?g (rev ns) env = (K, D, E)" by (metis prod_cases3)
  from wf_list_size [OF w] obtain L where L: "lists s l = Some L" "size_l L = length ns"
    by blast
  have lb: "length ns < SIZE_LIMIT" using wf_list_bound [OF w] by simp
  have i: "0 < length ns \<longrightarrow> sz_sub (length ns) 1 = length ns - 1"
  proof
    assume "0 < length ns"
    then have "1 \<le> length ns" by linarith
    from sz_sub_simp [OF this lb] show "sz_sub (length ns) 1 = length ns - 1" .
  qed
  have w0: "wf_list s l (ns @ []) ps" using w by simp
  from filter_loop_ok [OF w0 refl i fo, of f 0 "length ns" env] obtain d s1 where
    fl: "filter_loop l f (length ns) 0 (sz_sub (length ns) 1) (length ns) env s = Some (d, E, s1)"
    and w1: "wf_list s1 l K (D @ ps)"
    and p1: "\<forall>a. payload_at s1 (Some a) = payload_at s (Some a)"
    and so1: "same_outside s s1 l (set ns)"
    and r1: "brk s1 = brk s" "budget s1 = budget s" "mallocs s1 = mallocs s"
      "heap_ok s \<longrightarrow> heap_ok s1"
    unfolding fr fst_conv snd_conv by auto
  from wf_listD [OF w1] obtain L1 where L1: "lists s1 l = Some L1" by blast
  define s2 where "s2 = (if d \<le> ruly L1
     then s1\<lparr>lists := (lists s1)(l \<mapsto> L1\<lparr>flags := flags L1 AND 1\<rparr>)\<rparr> else s1)"
  have run: "clist_filter (Some l) (Some f) env s = Some (E, s2)"
    using L fl L1 by (simp add: clist_filter_def upd_list_def s2_def)
  have w2: "wf_list s2 l K (D @ ps)"
    using w1 wf_list_invalidate [OF w1 L1] by (simp add: s2_def)
  have p2: "\<forall>a. payload_at s2 (Some a) = payload_at s (Some a)"
    using p1 by (simp add: s2_def payload_at_def)
  have so2: "same_outside s s2 l (set ns)"
    using so1 by (simp add: s2_def same_outside_def)
  have r2: "brk s2 = brk s" "budget s2 = budget s" "mallocs s2 = mallocs s"
    using r1 by (simp_all add: s2_def)
  have h2: "heap_ok s \<longrightarrow> heap_ok s2" using r1(4) by (simp add: s2_def heap_ok_def)
  show ?thesis unfolding fr fst_conv snd_conv
    using run w2 p2 so2 r2 h2 by blast
qed










section \<open>Splicing\<close>

lemma updp_None [simp]: "updp h None g = h"
  by (simp add: updp_def)

lemma updp_dom [simp]: "(updp h p g a = None) = (h a = None)"
  by (cases p) (simp_all add: updp_def)

lemma updp_other: "p \<noteq> Some a \<Longrightarrow> updp h p g a = h a"
  by (cases p) (auto simp: updp_def)

lemma updp_keeps:
  assumes "\<And>n. f (g n) = f n"
  shows "map_option f (updp h p g a) = map_option f (h a)"
  using assms by (cases p) (simp_all add: updp_def option.map_comp comp_def)

lemma updp_nxt:
  "map_option nxt (updp h p (\<lambda>n. n\<lparr>nxt := q\<rparr>) a)
   = (if p = Some a \<and> h a \<noteq> None then Some q else map_option nxt (h a))"
  by (cases p; cases "h a") (auto simp: updp_def)

lemma updp_prv:
  "map_option prv (updp h p (\<lambda>n. n\<lparr>prv := q\<rparr>) a)
   = (if p = Some a \<and> h a \<noteq> None then Some q else map_option prv (h a))"
  by (cases p; cases "h a") (auto simp: updp_def)

lemma upd_node_updp:
  "h b \<noteq> None \<Longrightarrow> nodes s = h \<Longrightarrow>
   upd_node (Some b) g s = Some (s\<lparr>nodes := updp h (Some b) g\<rparr>)"
  by (auto simp: upd_node_def updp_def)

lemma first_or_rev_last: "xs \<noteq> [] \<Longrightarrow> first_or (rev xs) q = Some (last xs)"
  by (cases xs rule: rev_cases) simp_all

lemma first_or_hd: "xs \<noteq> [] \<Longrightarrow> first_or xs q = Some (hd xs)"
  by (cases xs) simp_all

lemma splice_run:
  fixes s :: "'a mem"
  assumes sd: "src \<noteq> dst" and S: "lists s src = Some S" and D: "lists s dst = Some D"
    and wS: "wf_L (nodes s) S (xs @ zs @ ys) ps" and wD: "wf_L (nodes s) D (us @ vs) qs"
    and nz: "zs \<noteq> []" and dj: "set (xs @ zs @ ys @ ps) \<inter> set (us @ vs @ qs) = {}"
    and ts: "type_size S = type_size D" and fl: "flags S AND 1 = flags D AND 1"
    and pvp: "pvp = first_or (rev xs) None" and nxp: "nxp = first_or ys None"
    and dpp: "dpp = first_or (rev us) None" and dnp: "dnp = first_or vs None"
    and L1: "L1 = go_cache S (length xs) (Some (hd zs))"
    and L2: "L2 = go_cache L1 (length xs + length zs - 1) (Some (last zs))"
    and L3: "L3 = (if xs = [] then L2\<lparr>head := nxp\<rparr> else L2)"
    and L4: "L4 = (if ys = [] then L3\<lparr>tail := pvp\<rparr> else L3)"
    and L5: "L5 = L4\<lparr>size_l := length (xs @ ys)\<rparr>"
    and L6: "L6 = (if length xs \<le> ruly L5 then L5\<lparr>flags := flags L5 AND 1\<rparr> else L5)"
    and D7: "D7 = (if us = [] then D else go_cache D (length us - 1) (Some (last us)))"
    and D8: "D8 = (if vs = [] then D7 else go_cache D7 (length us) (Some (hd vs)))"
    and D11: "D11 = (if us = [] then D8\<lparr>head := Some (hd zs)\<rparr> else D8)"
    and D12: "D12 = (if vs = [] then D11\<lparr>tail := Some (last zs)\<rparr> else D11)"
    and D13: "D13 = D12\<lparr>size_l := length (us @ zs @ vs)\<rparr>"
    and D14: "D14 = (if length us \<le> ruly D13 then D13\<lparr>flags := flags D13 AND 1\<rparr> else D13)"
    and h3: "h3 = updp (nodes s) pvp (\<lambda>n. n\<lparr>nxt := nxp\<rparr>)"
    and h4: "h4 = updp h3 nxp (\<lambda>n. n\<lparr>prv := pvp\<rparr>)"
    and h5: "h5 = updp h4 (Some (hd zs)) (\<lambda>n. n\<lparr>prv := dpp\<rparr>)"
    and h6: "h6 = updp h5 (Some (last zs)) (\<lambda>n. n\<lparr>nxt := dnp\<rparr>)"
    and h7: "h7 = updp h6 dpp (\<lambda>n. n\<lparr>nxt := Some (hd zs)\<rparr>)"
    and h8: "h8 = updp h7 dnp (\<lambda>n. n\<lparr>prv := Some (last zs)\<rparr>)"
  shows "clist_splice (Some src) (length xs) (length zs) (Some dst) (length us) s
         = Some (s\<lparr>lists := (lists s)(src \<mapsto> L6, dst \<mapsto> D14), nodes := h8\<rparr>)"
proof -
  let ?ns = "xs @ zs @ ys" and ?ms = "us @ vs"
  let ?i = "length xs" and ?c = "length zs" and ?pos = "length us"
  define mk where "mk ls h = s\<lparr>lists := ls, nodes := h\<rparr>" for ls h
  have mk [simp]: "lists (mk ls h) = ls" "nodes (mk ls h) = h"
    "(mk ls h)\<lparr>lists := ls'\<rparr> = mk ls' h" "(mk ls h)\<lparr>nodes := h'\<rparr> = mk ls h'"
    for ls h ls' h'
    by (simp_all add: mk_def)
  have s_mk: "s = mk (lists s) (nodes s)" by (simp add: mk_def)
  have p1: "path nxt (nodes s) (head S) ?ns None"
    and p2: "path prv (nodes s) (tail S) (rev ?ns) None"
    and sz: "size_l S = length ?ns"
    and dist: "distinct (?ns @ ps)"
    and va: "list_all valid_addr (?ns @ ps)" and co: "cache_ok S ?ns"
    using wS by (simp_all add: wf_L_def)
  have e1: "path nxt (nodes s) (head D) ?ms None"
    and e2: "path prv (nodes s) (tail D) (rev ?ms) None"
    and szd: "size_l D = length ?ms"
    and distd: "distinct (?ms @ qs)"
    and vad: "list_all valid_addr (?ms @ qs)" and cod: "cache_ok D ?ms"
    using wD by (simp_all add: wf_L_def)
  have dall: "distinct (?ns @ ?ms)" using dist distd dj by auto
  have vall: "list_all valid_addr (?ns @ ?ms)" using va vad by simp
  have bound: "length ?ns + length ?ms < SIZE_LIMIT"
    using length_bound [OF dall vall] by simp
  have cpos: "0 < ?c" using nz by simp
  have i1: "?i < length ?ns" and i2: "?i + ?c - 1 < length ?ns"
    using nz by (cases zs, simp_all)+
  have nth1: "?ns ! ?i = hd zs" using nz by (simp add: nth_append hd_conv_nth)
  have nth2: "?ns ! (?i + ?c - 1) = last zs"
  proof -
    have e: "?i + ?c - 1 = ?i + (?c - 1)" using cpos by linarith
    have "?ns ! (?i + (?c - 1)) = (zs @ ys) ! (?c - 1)" by (rule nth_append_length_plus)
    also have "\<dots> = zs ! (?c - 1)" using cpos by (simp add: nth_append)
    also have "\<dots> = last zs" using nz by (simp add: last_conv_nth)
    finally show ?thesis unfolding e .
  qed
  define ls1 where "ls1 = (lists s)(src \<mapsto> L1)"
  define ls2 where "ls2 = (lists s)(src \<mapsto> L2)"
  define ls3 where "ls3 = (lists s)(src \<mapsto> L3)"
  define ls4 where "ls4 = (lists s)(src \<mapsto> L4)"
  define ls5 where "ls5 = (lists s)(src \<mapsto> L5)"
  define ls6 where "ls6 = (lists s)(src \<mapsto> L6)"
  define ls7 where "ls7 = (lists s)(src \<mapsto> L6, dst \<mapsto> D7)"
  define ls8 where "ls8 = (lists s)(src \<mapsto> L6, dst \<mapsto> D8)"
  define ls11 where "ls11 = (lists s)(src \<mapsto> L6, dst \<mapsto> D11)"
  define ls12 where "ls12 = (lists s)(src \<mapsto> L6, dst \<mapsto> D12)"
  define ls13 where "ls13 = (lists s)(src \<mapsto> L6, dst \<mapsto> D13)"
  define ls14 where "ls14 = (lists s)(src \<mapsto> L6, dst \<mapsto> D14)"
  have go1: "clist_go (Some src) ?i s = Some (Some (hd zs), mk ls1 (nodes s))"
    using clist_go_wf [OF S p1 p2 sz co i1] nth1 by (simp add: L1 ls1_def mk_def)
  have c1: "cache_ok L1 ?ns" using cache_ok_go_cache [OF co i1] nth1 by (simp add: L1)
  have L1s: "lists (mk ls1 (nodes s)) src = Some L1" by (simp add: ls1_def)
  have go2: "clist_go (Some src) (?i + ?c - 1) (mk ls1 (nodes s)) = Some (Some (last zs), mk ls2 (nodes s))"
    using clist_go_wf [OF L1s, of ?ns "?i + ?c - 1"] p1 p2 sz c1 i2 nth2
    by (simp add: L1 L2 ls1_def ls2_def)
  from p1 obtain m where m: "path nxt (nodes s) m zs nxp"
    using path_start unfolding path_append nxp by blast
  have "path prv (nodes s) (tail S) (rev ys @ rev zs @ rev xs) None" using p2 by simp
  then obtain m' where m': "path prv (nodes s) m' (rev zs) pvp"
    using path_start unfolding path_append pvp by blast
  from path_last [OF m nz] obtain zn2 where
    zn2: "nodes s (last zs) = Some zn2" "nxt zn2 = nxp" by blast
  from path_last [OF m'] nz obtain zn1 where
    zn1: "nodes s (hd zs) = Some zn1" "prv zn1 = pvp" by (auto simp: last_rev)
  have alloc: "a \<in> set ?ns \<Longrightarrow> nodes s a \<noteq> None" for a by (rule path_alloc [OF p1])
  have allocd: "a \<in> set ?ms \<Longrightarrow> nodes s a \<noteq> None" for a by (rule path_alloc [OF e1])
  have prevs: "xs = [] \<Longrightarrow> pvp = None" "xs \<noteq> [] \<Longrightarrow> pvp = Some (last xs)"
    unfolding pvp by (simp_all add: first_or_rev_last)
  have nexts: "ys = [] \<Longrightarrow> nxp = None" "ys \<noteq> [] \<Longrightarrow> nxp = Some (hd ys)"
    unfolding nxp by (simp_all add: first_or_hd)
  have dprevs: "us = [] \<Longrightarrow> dpp = None" "us \<noteq> [] \<Longrightarrow> dpp = Some (last us)"
    unfolding dpp by (simp_all add: first_or_rev_last)
  have dnexts: "vs = [] \<Longrightarrow> dnp = None" "vs \<noteq> [] \<Longrightarrow> dnp = Some (hd vs)"
    unfolding dnp by (simp_all add: first_or_hd)
  have one: "1 \<le> ?i + ?c" using cpos by linarith
  have lt: "?i + ?c < SIZE_LIMIT" using bound by simp
  have szs: "sz_add ?i ?c = ?i + ?c" "sz_sub (?i + ?c) 1 = ?i + ?c - 1"
    "sz_sub (length ?ns) ?c = length (xs @ ys)"
    "sz_add (length ?ms) ?c = length (us @ zs @ vs)"
    using bound sz_sub_simp [OF one lt] by (simp_all add: sz_add_simp sz_sub_simp)
  have guard: "(sz_add ?i ?c \<le> size_l S \<and> ?pos \<le> size_l D \<and> type_size S = type_size D
       \<and> flags S AND 1 = flags D AND 1 \<and> 0 < ?c) = True"
    using szs(1) sz szd ts fl cpos by simp
  have go2': "clist_go (Some src) (sz_sub (sz_add ?i ?c) 1) (mk ls1 (nodes s))
      = Some (Some (last zs), mk ls2 (nodes s))"
    using go2 szs(1,2) by simp
  have n1: "node_at (mk ls1 (nodes s)) (Some (hd zs)) = Some zn1" using zn1(1) by simp
  have n2: "node_at (mk ls2 (nodes s)) (Some (last zs)) = Some zn2" using zn2(1) by simp
  have st3: "(if ?i = 0 then upd_list src (\<lambda>L. L\<lparr>head := nxp\<rparr>) (mk ls2 (nodes s))
             else upd_node pvp (\<lambda>n. n\<lparr>nxt := nxp\<rparr>) (mk ls2 (nodes s))) = Some (mk ls3 h3)"
  proof (cases "xs = []")
    case True
    then show ?thesis
      by (simp add: upd_list_def ls2_def ls3_def L3 h3 prevs)
  next
    case False
    then have "nodes s (last xs) \<noteq> None" by (intro alloc) simp
    then show ?thesis using False prevs(2) [OF False]
      by (simp add: upd_node_updp [where h = "nodes s"] h3 L3 ls2_def ls3_def)
  qed
  have st4: "(if nxp = None then upd_list src (\<lambda>L. L\<lparr>tail := pvp\<rparr>) (mk ls3 h3)
             else upd_node nxp (\<lambda>n. n\<lparr>prv := pvp\<rparr>) (mk ls3 h3)) = Some (mk ls4 h4)"
  proof (cases "ys = []")
    case True
    then show ?thesis
      by (simp add: upd_list_def ls4_def ls3_def L4 h4 nexts)
  next
    case False
    then have "nodes s (hd ys) \<noteq> None" by (intro alloc) simp
    then have "h3 (hd ys) \<noteq> None" by (simp add: h3)
    then show ?thesis using False nexts(2) [OF False]
      by (simp add: upd_node_updp [where h = h3] h4 L4 ls4_def ls3_def)
  qed
  have st5: "upd_list src (\<lambda>L. L\<lparr>size_l := sz_sub (size_l L) ?c\<rparr>) (mk ls4 h4) = Some (mk ls5 h4)"
  proof -
    have "size_l L4 = length ?ns" using sz by (simp add: L4 L3 L2 L1)
    then show ?thesis using szs(3) by (simp add: upd_list_def ls4_def ls5_def L5)
  qed
  have l5: "lists (mk ls5 h4) src = Some L5" by (simp add: ls5_def)
  have st6: "(if ?i \<le> ruly L5 then upd_list src (\<lambda>L. L\<lparr>flags := flags L AND 1\<rparr>) (mk ls5 h4)
             else Some (mk ls5 h4)) = Some (mk ls6 h4)"
    by (simp add: upd_list_def ls5_def ls6_def L6)
  have src_notin: "a \<in> set ?ns \<Longrightarrow> a \<notin> set ?ms" for a using dj by auto
  have pv_ms: "pvp \<noteq> Some a" "nxp \<noteq> Some a" if "a \<in> set ?ms" for a
  proof -
    show "pvp \<noteq> Some a"
      using that src_notin [of "last xs"] prevs by (cases "xs = []") auto
    show "nxp \<noteq> Some a"
      using that src_notin [of "hd ys"] nexts by (cases "ys = []") auto
  qed
  have h4d: "h4 a = nodes s a" if "a \<in> set ?ms" for a
    using pv_ms [OF that] by (simp add: h4 h3 updp_other)
  have "path nxt h4 (head D) ?ms None = path nxt (nodes s) (head D) ?ms None"
    by (rule path_frame) (rule h4d)
  then have e1': "path nxt h4 (head D) ?ms None" using e1 by simp
  have "path prv h4 (tail D) (rev ?ms) None = path prv (nodes s) (tail D) (rev ?ms) None"
    by (rule path_frame) (rule h4d, auto)
  then have e2': "path prv h4 (tail D) (rev ?ms) None" using e2 by simp
  have D6: "lists (mk ls6 h4) dst = Some D" using sd D by (simp add: ls6_def)
  have st7: "(if ?pos = 0 then Some (None, mk ls6 h4) else clist_go (Some dst) (?pos - 1) (mk ls6 h4))
      = Some (dpp, mk ls7 h4)"
  proof (cases "us = []")
    case True
    have "ls7 = ls6" using sd D True by (auto simp: ls7_def ls6_def D7)
    then show ?thesis using True dprevs(1) by simp
  next
    case False
    have lt: "?pos - 1 < length ?ms" using False by (cases us) simp_all
    have nth: "?ms ! (?pos - 1) = last us" using False by (simp add: nth_append last_conv_nth)
    show ?thesis
      using clist_go_wf [OF D6, of ?ms "?pos - 1"] e1' e2' szd cod lt nth False dprevs(2)
      by (simp add: ls7_def ls6_def D7)
  qed
  have l7: "lists (mk ls7 h4) dst = Some D7" by (simp add: ls7_def)
  have c7: "cache_ok D7 ?ms"
  proof (cases "us = []")
    case True
    then show ?thesis using cod by (simp add: D7)
  next
    case False
    have lt: "?pos - 1 < length ?ms" using False by (cases us) simp_all
    have nth: "?ms ! (?pos - 1) = last us" using False by (simp add: nth_append last_conv_nth)
    show ?thesis using cache_ok_go_cache [OF cod lt] nth False by (simp add: D7)
  qed
  have sz7: "size_l D7 = length ?ms" using szd by (simp add: D7)
  have hd7: "head D7 = head D" "tail D7 = tail D" by (simp_all add: D7)
  have st8: "(if ?pos < size_l D7 then clist_go (Some dst) ?pos (mk ls7 h4) else Some (None, mk ls7 h4))
      = Some (dnp, mk ls8 h4)"
  proof (cases "vs = []")
    case True
    have "ls8 = ls7" using True by (simp add: ls8_def ls7_def D8)
    then show ?thesis using True dnexts(1) sz7 by simp
  next
    case False
    have lt: "?pos < length ?ms" using False by simp
    have nth: "?ms ! ?pos = hd vs" using False by (simp add: nth_append hd_conv_nth)
    show ?thesis
      using clist_go_wf [OF l7, of ?ms ?pos] e1' e2' sz7 c7 lt nth False dnexts(2) hd7
      by (simp add: ls8_def ls7_def D8)
  qed
  have st9: "upd_node (Some (hd zs)) (\<lambda>n. n\<lparr>prv := dpp\<rparr>) (mk ls8 h4) = Some (mk ls8 h5)"
    using zn1(1) by (simp add: upd_node_updp [where h = h4] h5 h4 h3)
  have st10: "upd_node (Some (last zs)) (\<lambda>n. n\<lparr>nxt := dnp\<rparr>) (mk ls8 h5) = Some (mk ls8 h6)"
    using zn2(1) by (simp add: upd_node_updp [where h = h5] h6 h5 h4 h3)
  have st11: "(if dpp \<noteq> None then upd_node dpp (\<lambda>n. n\<lparr>nxt := Some (hd zs)\<rparr>) (mk ls8 h6)
               else upd_list dst (\<lambda>L. L\<lparr>head := Some (hd zs)\<rparr>) (mk ls8 h6)) = Some (mk ls11 h7)"
  proof (cases "us = []")
    case True
    then show ?thesis using sd
      by (simp add: upd_list_def ls8_def ls11_def D11 h7 dprevs)
  next
    case False
    then have "nodes s (last us) \<noteq> None" by (intro allocd) simp
    then have "h6 (last us) \<noteq> None" by (simp add: h6 h5 h4 h3)
    then show ?thesis using False dprevs(2) [OF False]
      by (simp add: upd_node_updp [where h = h6] h7 D11 ls8_def ls11_def)
  qed
  have st12: "(if dnp \<noteq> None then upd_node dnp (\<lambda>n. n\<lparr>prv := Some (last zs)\<rparr>) (mk ls11 h7)
               else upd_list dst (\<lambda>L. L\<lparr>tail := Some (last zs)\<rparr>) (mk ls11 h7)) = Some (mk ls12 h8)"
  proof (cases "vs = []")
    case True
    then show ?thesis using sd
      by (simp add: upd_list_def ls12_def ls11_def D12 h8 dnexts)
  next
    case False
    then have "nodes s (hd vs) \<noteq> None" by (intro allocd) simp
    then have "h7 (hd vs) \<noteq> None" by (simp add: h7 h6 h5 h4 h3)
    then show ?thesis using False dnexts(2) [OF False]
      by (simp add: upd_node_updp [where h = h7] h8 D12 ls12_def ls11_def)
  qed
  have st13: "upd_list dst (\<lambda>L. L\<lparr>size_l := sz_add (size_l L) ?c\<rparr>) (mk ls12 h8) = Some (mk ls13 h8)"
  proof -
    have "size_l D12 = length ?ms" using szd by (simp add: D12 D11 D8 D7)
    then show ?thesis using szs(4) by (simp add: upd_list_def ls12_def ls13_def D13)
  qed
  have l13: "lists (mk ls13 h8) dst = Some D13" by (simp add: ls13_def)
  have st14: "(if ?pos \<le> ruly D13 then upd_list dst (\<lambda>L. L\<lparr>flags := flags L AND 1\<rparr>) (mk ls13 h8)
             else Some (mk ls13 h8)) = Some (mk ls14 h8)"
    by (simp add: upd_list_def ls13_def ls14_def D14)
  have "clist_splice (Some src) ?i ?c (Some dst) ?pos s = Some (mk ls14 h8)"
    by (simp only: clist_splice_def option.case sd if_False S D guard if_True go1 n1 go2' n2
        zn1(2) zn2(2) Let_def st3 st4 st5 l5 st6 st7 l7 st8 st9 st10 st11 st12 st13 l13 st14
        Option.bind.bind_lunit prod.case)
  then show ?thesis by (simp add: mk_def ls14_def)
qed

lemma first_or_rev_Some: "(first_or (rev xs) None = Some a) = (xs \<noteq> [] \<and> a = last xs)"
  by (cases xs rule: rev_cases) auto

lemma first_or_Some: "(first_or xs None = Some a) = (xs \<noteq> [] \<and> a = hd xs)"
  by (cases xs) auto

lemma mem_tlD: "a \<in> set (tl xs) \<Longrightarrow> a \<in> set xs"
  by (cases xs) auto

lemma hd_notin_tl: "distinct xs \<Longrightarrow> xs \<noteq> [] \<Longrightarrow> hd xs \<notin> set (tl xs)"
  by (cases xs) auto

lemma splice_heap:
  fixes h h8 :: "addr \<Rightarrow> 'a node option"
  assumes p1: "path nxt h hS (xs @ zs @ ys) None"
    and p2: "path prv h tS (rev (xs @ zs @ ys)) None"
    and pp: "path nxt h pS ps None"
    and e1: "path nxt h hD (us @ vs) None"
    and e2: "path prv h tD (rev (us @ vs)) None"
    and eq: "path nxt h pD qs None"
    and nz: "zs \<noteq> []"
    and dist: "distinct ((xs @ zs @ ys @ ps) @ (us @ vs @ qs))"
    and pvp: "pvp = first_or (rev xs) None" and nxp: "nxp = first_or ys None"
    and dpp: "dpp = first_or (rev us) None" and dnp: "dnp = first_or vs None"
    and h8: "h8 = updp (updp (updp (updp (updp (updp h
        pvp (\<lambda>n. n\<lparr>nxt := nxp\<rparr>))
        nxp (\<lambda>n. n\<lparr>prv := pvp\<rparr>))
        (Some (hd zs)) (\<lambda>n. n\<lparr>prv := dpp\<rparr>))
        (Some (last zs)) (\<lambda>n. n\<lparr>nxt := dnp\<rparr>))
        dpp (\<lambda>n. n\<lparr>nxt := Some (hd zs)\<rparr>))
        dnp (\<lambda>n. n\<lparr>prv := Some (last zs)\<rparr>)"
  shows "path nxt h8 (if xs = [] then first_or ys None else hS) (xs @ ys) None"
    and "path prv h8 (if ys = [] then first_or (rev xs) None else tS) (rev (xs @ ys)) None"
    and "path nxt h8 pS ps None"
    and "path nxt h8 (if us = [] then Some (hd zs) else hD) (us @ zs @ vs) None"
    and "path prv h8 (if vs = [] then Some (last zs) else tD) (rev (us @ zs @ vs)) None"
    and "path nxt h8 pD qs None"
    and "\<And>a. a \<notin> set (xs @ zs @ ys) \<union> set (us @ vs) \<Longrightarrow> h8 a = h a"
    and "\<And>a. map_option payload (h8 a) = map_option payload (h a)"
    and "\<And>a. (h8 a = None) = (h a = None)"
proof -
  have nx8: "map_option nxt (h8 a) =
      (if dpp = Some a \<and> h a \<noteq> None then Some (Some (hd zs))
       else if last zs = a \<and> h a \<noteq> None then Some dnp
       else if pvp = Some a \<and> h a \<noteq> None then Some nxp
       else map_option nxt (h a))" for a
    by (auto simp: h8 updp_nxt updp_keeps)
  have pv8: "map_option prv (h8 a) =
      (if dnp = Some a \<and> h a \<noteq> None then Some (Some (last zs))
       else if hd zs = a \<and> h a \<noteq> None then Some dpp
       else if nxp = Some a \<and> h a \<noteq> None then Some pvp
       else map_option prv (h a))" for a
    by (auto simp: h8 updp_prv updp_keeps)
  have al: "a \<in> set (xs @ zs @ ys) \<Longrightarrow> h a \<noteq> None" for a by (rule path_alloc [OF p1])
  have ald: "a \<in> set (us @ vs) \<Longrightarrow> h a \<noteq> None" for a by (rule path_alloc [OF e1])
  have ptr: "(pvp = Some a) = (xs \<noteq> [] \<and> a = last xs)" "(nxp = Some a) = (ys \<noteq> [] \<and> a = hd ys)"
    "(dpp = Some a) = (us \<noteq> [] \<and> a = last us)" "(dnp = Some a) = (vs \<noteq> [] \<and> a = hd vs)" for a
    by (simp_all add: pvp nxp dpp dnp first_or_Some hd_rev cong: conj_cong)
  have inx: "xs \<noteq> [] \<Longrightarrow> last xs \<in> set xs" "ys \<noteq> [] \<Longrightarrow> hd ys \<in> set ys"
    "us \<noteq> [] \<Longrightarrow> last us \<in> set us" "vs \<noteq> [] \<Longrightarrow> hd vs \<in> set vs"
    "hd zs \<in> set zs" "last zs \<in> set zs"
    using nz by simp_all
  have dx: "distinct xs" "distinct ys" "distinct zs" "distinct us" "distinct vs"
    using dist by simp_all
  have djs: "set xs \<inter> set zs = {}" "set xs \<inter> set ys = {}" "set zs \<inter> set ys = {}"
    "set xs \<inter> set us = {}" "set xs \<inter> set vs = {}" "set zs \<inter> set us = {}"
    "set zs \<inter> set vs = {}" "set ys \<inter> set us = {}" "set ys \<inter> set vs = {}"
    "set us \<inter> set vs = {}"
    "set ps \<inter> (set xs \<union> set zs \<union> set ys \<union> set us \<union> set vs) = {}"
    "set qs \<inter> (set xs \<union> set zs \<union> set ys \<union> set us \<union> set vs) = {}"
    using dist by auto
  show "h8 a = h a" if "a \<notin> set (xs @ zs @ ys) \<union> set (us @ vs)" for a
  proof -
    have "pvp \<noteq> Some a" "nxp \<noteq> Some a" "dpp \<noteq> Some a" "dnp \<noteq> Some a"
      "Some (hd zs) \<noteq> Some a" "Some (last zs) \<noteq> Some a"
      using that inx by (auto simp: ptr)
    then show ?thesis by (simp add: h8 updp_other)
  qed
  show "map_option payload (h8 a) = map_option payload (h a)" for a
    by (simp add: h8 updp_keeps)
  show "(h8 a = None) = (h a = None)" for a by (simp add: h8)
  show "path nxt h8 (if xs = [] then first_or ys None else hS) (xs @ ys) None"
  proof (rule path_remove_seg [where h' = h8, OF p1])
    show "distinct (xs @ zs @ ys)" using dx djs by auto
    show "map_option nxt (h8 a) = map_option nxt (h a)"
      if A: "a \<in> set (butlast xs) \<union> set ys" for a
    proof -
      have "a \<in> set xs \<union> set ys" using A by (auto dest: in_set_butlastD)
      then have "a \<notin> set us" "a \<notin> set zs" using djs by auto
      moreover have "a \<noteq> last xs" if x: "xs \<noteq> []"
        using A last_notin_butlast [OF dx(1) x] inx(1) [OF x] djs(2) by auto
      ultimately show ?thesis using inx by (auto simp: nx8 ptr)
    qed
    show "map_option nxt (h8 (last xs)) = Some (first_or ys None)" if "xs \<noteq> []"
    proof -
      have "last xs \<notin> set us" "last xs \<notin> set zs" using inx(1) [OF that] djs by auto
      then show ?thesis using inx that al [of "last xs"] by (auto simp: nx8 ptr nxp)
    qed
  qed
  have p2': "path prv h tS (rev ys @ rev zs @ rev xs) None" using p2 by simp
  have "path prv h8 (if rev ys = [] then first_or (rev xs) None else tS) (rev ys @ rev xs) None"
  proof (rule path_remove_seg [where h' = h8, OF p2'])
    show "distinct (rev ys @ rev zs @ rev xs)" using dx djs by auto
    show "map_option prv (h8 a) = map_option prv (h a)"
      if "a \<in> set (butlast (rev ys)) \<union> set (rev xs)" for a
    proof -
      have m: "a \<in> set (tl ys) \<union> set xs" using that by (simp add: butlast_rev)
      then have "a \<in> set xs \<union> set ys" by (auto dest: mem_tlD)
      then have "a \<notin> set vs" "a \<notin> set zs" using djs by auto
      moreover have "a \<noteq> hd ys" if y: "ys \<noteq> []"
        using m hd_notin_tl [OF dx(2) y] inx(2) [OF y] djs(2) by auto
      ultimately show ?thesis using inx by (auto simp: pv8 ptr)
    qed
    show "map_option prv (h8 (last (rev ys))) = Some (first_or (rev xs) None)" if "rev ys \<noteq> []"
    proof -
      have y: "ys \<noteq> []" using that by simp
      have "hd ys \<notin> set vs" "hd ys \<notin> set zs" using inx(2) [OF y] djs by auto
      then show ?thesis using inx y al [of "hd ys"] by (auto simp: pv8 ptr pvp last_rev)
    qed
  qed
  then show "path prv h8 (if ys = [] then first_or (rev xs) None else tS) (rev (xs @ ys)) None"
    by simp
  have "path nxt h8 pS ps None = path nxt h pS ps None"
  proof (rule path_cong)
    fix a assume "a \<in> set ps"
    then have "a \<notin> set xs" "a \<notin> set zs" "a \<notin> set us" using djs(11) by auto
    then show "map_option nxt (h8 a) = map_option nxt (h a)" using inx by (auto simp: nx8 ptr)
  qed
  then show "path nxt h8 pS ps None" using pp by simp
  have "path nxt h8 pD qs None = path nxt h pD qs None"
  proof (rule path_cong)
    fix a assume "a \<in> set qs"
    then have "a \<notin> set xs" "a \<notin> set zs" "a \<notin> set us" using djs(12) by auto
    then show "map_option nxt (h8 a) = map_option nxt (h a)" using inx by (auto simp: nx8 ptr)
  qed
  then show "path nxt h8 pD qs None" using eq by simp
  from p1 obtain m where m: "path nxt h m zs nxp"
    using path_start unfolding path_append nxp by blast
  from p2' obtain m' where m': "path prv h m' (rev zs) pvp"
    using path_start unfolding path_append pvp by blast
  show "path nxt h8 (if us = [] then Some (hd zs) else hD) (us @ zs @ vs) None"
  proof (rule path_insert_seg [where h' = h8, OF e1 m nz])
    show "distinct (us @ zs @ vs)" using dx djs by auto
    show "map_option nxt (h8 a) = map_option nxt (h a)"
      if A: "a \<in> set (butlast us) \<union> set (butlast zs) \<union> set vs" for a
    proof -
      have "a \<in> set us \<union> set zs \<union> set vs" using A by (auto dest: in_set_butlastD)
      then have "a \<notin> set xs" using djs by auto
      moreover have "a \<noteq> last us" if u: "us \<noteq> []"
        using A last_notin_butlast [OF dx(4) u] inx(3) [OF u] djs(6,10)
        by (auto dest: in_set_butlastD)
      moreover have "a \<noteq> last zs"
        using A last_notin_butlast [OF dx(3) nz] inx(6) djs(6,7) by (auto dest: in_set_butlastD)
      ultimately show ?thesis using inx by (auto simp: nx8 ptr)
    qed
    show "map_option nxt (h8 (last us)) = Some (Some (hd zs))" if "us \<noteq> []"
      using that ald [of "last us"] by (auto simp: nx8 ptr)
    show "map_option nxt (h8 (last zs)) = Some (first_or vs None)"
    proof -
      have "last zs \<notin> set us" using inx(6) djs by auto
      then show ?thesis using inx al [of "last zs"] by (auto simp: nx8 ptr dnp)
    qed
  qed
  have e2': "path prv h tD (rev vs @ rev us) None" using e2 by simp
  have rz: "rev zs \<noteq> []" using nz by simp
  have "path prv h8 (if rev vs = [] then Some (hd (rev zs)) else tD) (rev vs @ rev zs @ rev us) None"
  proof (rule path_insert_seg [where h' = h8, OF e2' m' rz])
    show "distinct (rev vs @ rev zs @ rev us)" using dx djs by auto
    show "map_option prv (h8 a) = map_option prv (h a)"
      if "a \<in> set (butlast (rev vs)) \<union> set (butlast (rev zs)) \<union> set (rev us)" for a
    proof -
      have m: "a \<in> set (tl vs) \<union> set (tl zs) \<union> set us" using that by (simp add: butlast_rev)
      then have "a \<in> set us \<union> set zs \<union> set vs" by (auto dest: mem_tlD)
      then have "a \<notin> set ys" using djs by auto
      moreover have "a \<noteq> hd vs" if v: "vs \<noteq> []"
        using m hd_notin_tl [OF dx(5) v] inx(4) [OF v] djs(7,10) by (auto dest: mem_tlD)
      moreover have "a \<noteq> hd zs"
        using m hd_notin_tl [OF dx(3) nz] inx(5) djs(6,7) by (auto dest: mem_tlD)
      ultimately show ?thesis using inx by (auto simp: pv8 ptr)
    qed
    show "map_option prv (h8 (last (rev vs))) = Some (Some (hd (rev zs)))" if "rev vs \<noteq> []"
      using that ald [of "hd vs"] nz by (auto simp: pv8 ptr last_rev hd_rev)
    show "map_option prv (h8 (last (rev zs))) = Some (first_or (rev us) None)"
    proof -
      have "hd zs \<notin> set vs" using inx(5) djs by auto
      then show ?thesis using inx al [of "hd zs"] nz by (auto simp: pv8 ptr dpp last_rev)
    qed
  qed
  then show "path prv h8 (if vs = [] then Some (last zs) else tD) (rev (us @ zs @ vs)) None"
    using nz hd_rev [of zs] by (cases "vs = []") simp_all
qed

lemma cache_ok_prefix:
  assumes "cache_ok L (xs @ ms)" "ruly L' = ruly L" "rul L' = rul L" "flags L' = flags L"
    "ruly L < length xs"
  shows "cache_ok L' (xs @ ms')"
  using assms by (auto simp: cache_ok_def nth_append)

lemma cache_ok_invalid: "cache_ok (L\<lparr>flags := flags L AND 1\<rparr>) ns"
  by (simp add: cache_ok_def and1_and2)

lemma splice_ok_split:
  fixes s :: "'a mem"
  assumes sd: "src \<noteq> dst" and S: "lists s src = Some S" and D: "lists s dst = Some D"
    and wS: "wf_L (nodes s) S (xs @ zs @ ys) ps" and wD: "wf_L (nodes s) D (us @ vs) qs"
    and nz: "zs \<noteq> []" and dj: "set (xs @ zs @ ys @ ps) \<inter> set (us @ vs @ qs) = {}"
    and ts: "type_size S = type_size D" and fl: "flags S AND 1 = flags D AND 1"
  shows "\<exists>s' S' D'.
       clist_splice (Some src) (length xs) (length zs) (Some dst) (length us) s = Some s'
     \<and> lists s' = (lists s)(src \<mapsto> S', dst \<mapsto> D')
     \<and> wf_L (nodes s') S' (xs @ ys) ps \<and> wf_L (nodes s') D' (us @ zs @ vs) qs
     \<and> type_size S' = type_size S \<and> flags S' AND 1 = flags S AND 1
     \<and> type_size D' = type_size D \<and> flags D' AND 1 = flags D AND 1
     \<and> (\<forall>a. a \<notin> set (xs @ zs @ ys) \<union> set (us @ vs) \<longrightarrow> nodes s' a = nodes s a)
     \<and> (\<forall>a. map_option payload (nodes s' a) = map_option payload (nodes s a))
     \<and> (\<forall>a. (nodes s' a = None) = (nodes s a = None))
     \<and> brk s' = brk s \<and> budget s' = budget s \<and> mallocs s' = mallocs s \<and> freed s' = freed s"
proof -
  define pvp where "pvp = first_or (rev xs) (None :: addr option)"
  define nxp where "nxp = first_or ys (None :: addr option)"
  define dpp where "dpp = first_or (rev us) (None :: addr option)"
  define dnp where "dnp = first_or vs (None :: addr option)"
  define L1 where "L1 = go_cache S (length xs) (Some (hd zs))"
  define L2 where "L2 = go_cache L1 (length xs + length zs - 1) (Some (last zs))"
  define L3 where "L3 = (if xs = [] then L2\<lparr>head := nxp\<rparr> else L2)"
  define L4 where "L4 = (if ys = [] then L3\<lparr>tail := pvp\<rparr> else L3)"
  define L5 where "L5 = L4\<lparr>size_l := length (xs @ ys)\<rparr>"
  define L6 where "L6 = (if length xs \<le> ruly L5 then L5\<lparr>flags := flags L5 AND 1\<rparr> else L5)"
  define D7 where "D7 = (if us = [] then D else go_cache D (length us - 1) (Some (last us)))"
  define D8 where "D8 = (if vs = [] then D7 else go_cache D7 (length us) (Some (hd vs)))"
  define D11 where "D11 = (if us = [] then D8\<lparr>head := Some (hd zs)\<rparr> else D8)"
  define D12 where "D12 = (if vs = [] then D11\<lparr>tail := Some (last zs)\<rparr> else D11)"
  define D13 where "D13 = D12\<lparr>size_l := length (us @ zs @ vs)\<rparr>"
  define D14 where "D14 = (if length us \<le> ruly D13 then D13\<lparr>flags := flags D13 AND 1\<rparr> else D13)"
  define h3 where "h3 = updp (nodes s) pvp (\<lambda>n. n\<lparr>nxt := nxp\<rparr>)"
  define h4 where "h4 = updp h3 nxp (\<lambda>n. n\<lparr>prv := pvp\<rparr>)"
  define h5 where "h5 = updp h4 (Some (hd zs)) (\<lambda>n. n\<lparr>prv := dpp\<rparr>)"
  define h6 where "h6 = updp h5 (Some (last zs)) (\<lambda>n. n\<lparr>nxt := dnp\<rparr>)"
  define h7 where "h7 = updp h6 dpp (\<lambda>n. n\<lparr>nxt := Some (hd zs)\<rparr>)"
  define h8 where "h8 = updp h7 dnp (\<lambda>n. n\<lparr>prv := Some (last zs)\<rparr>)"
  define s' where "s' = s\<lparr>lists := (lists s)(src \<mapsto> L6, dst \<mapsto> D14), nodes := h8\<rparr>"
  have run: "clist_splice (Some src) (length xs) (length zs) (Some dst) (length us) s = Some s'"
    unfolding s'_def
    by (rule splice_run [OF sd S D wS wD nz dj ts fl pvp_def nxp_def dpp_def dnp_def
          L1_def L2_def L3_def L4_def L5_def L6_def D7_def D8_def D11_def D12_def D13_def D14_def
          h3_def h4_def h5_def h6_def h7_def h8_def])
  let ?ns = "xs @ zs @ ys" and ?ms = "us @ vs"
  have p1: "path nxt (nodes s) (head S) ?ns None"
    and p2: "path prv (nodes s) (tail S) (rev ?ns) None"
    and sz: "size_l S = length ?ns" and pp: "path nxt (nodes s) (pkb S) ps None"
    and zk: "zskb S = length ps" and dist: "distinct (?ns @ ps)"
    and va: "list_all valid_addr (?ns @ ps)" and co: "cache_ok S ?ns"
    using wS by (simp_all add: wf_L_def)
  have e1: "path nxt (nodes s) (head D) ?ms None"
    and e2: "path prv (nodes s) (tail D) (rev ?ms) None"
    and szd: "size_l D = length ?ms" and eq: "path nxt (nodes s) (pkb D) qs None"
    and zkd: "zskb D = length qs" and distd: "distinct (?ms @ qs)"
    and vad: "list_all valid_addr (?ms @ qs)" and cod: "cache_ok D ?ms"
    using wD by (simp_all add: wf_L_def)
  have dall: "distinct ((xs @ zs @ ys @ ps) @ (us @ vs @ qs))"
    using dist distd dj by auto
  have h8': "h8 = updp (updp (updp (updp (updp (updp (nodes s)
        pvp (\<lambda>n. n\<lparr>nxt := nxp\<rparr>))
        nxp (\<lambda>n. n\<lparr>prv := pvp\<rparr>))
        (Some (hd zs)) (\<lambda>n. n\<lparr>prv := dpp\<rparr>))
        (Some (last zs)) (\<lambda>n. n\<lparr>nxt := dnp\<rparr>))
        dpp (\<lambda>n. n\<lparr>nxt := Some (hd zs)\<rparr>))
        dnp (\<lambda>n. n\<lparr>prv := Some (last zs)\<rparr>)"
    by (simp add: h8_def h7_def h6_def h5_def h4_def h3_def)
  note hp = splice_heap [OF p1 p2 pp e1 e2 eq nz dall pvp_def nxp_def dpp_def dnp_def h8']
  have i1: "length xs < length ?ns" and i2: "length xs + length zs - 1 < length ?ns"
    using nz by (cases zs, simp_all)+
  have cpos: "0 < length zs" using nz by simp
  have nth1: "?ns ! length xs = hd zs" using nz by (simp add: nth_append hd_conv_nth)
  have nth2: "?ns ! (length xs + length zs - 1) = last zs"
  proof -
    have e: "length xs + length zs - 1 = length xs + (length zs - 1)" using cpos by linarith
    have "?ns ! (length xs + (length zs - 1)) = (zs @ ys) ! (length zs - 1)"
      by (rule nth_append_length_plus)
    also have "\<dots> = zs ! (length zs - 1)" using cpos by (simp add: nth_append)
    also have "\<dots> = last zs" using nz by (simp add: last_conv_nth)
    finally show ?thesis unfolding e .
  qed
  have c1: "cache_ok L1 ?ns"
    using cache_ok_go_cache [OF co i1] nth1 by (simp add: L1_def)
  have c2: "cache_ok L2 ?ns"
    using cache_ok_go_cache [OF c1 i2] nth2 by (simp add: L2_def)
  have r5: "ruly L5 = ruly L2" "rul L5 = rul L2" "flags L5 = flags L2"
    by (simp_all add: L5_def L4_def L3_def)
  have c6: "cache_ok L6 (xs @ ys)"
  proof (cases "length xs \<le> ruly L5")
    case True
    then show ?thesis by (simp add: L6_def cache_ok_invalid)
  next
    case False
    then have "ruly L2 < length xs" using r5(1) by simp
    from cache_ok_prefix [OF c2 r5 this] show ?thesis using False by (simp add: L6_def)
  qed
  have f6: "head L6 = (if xs = [] then first_or ys None else head S)"
    "tail L6 = (if ys = [] then first_or (rev xs) None else tail S)"
    "size_l L6 = length (xs @ ys)" "pkb L6 = pkb S" "zskb L6 = zskb S"
    "type_size L6 = type_size S" "flags L6 AND 1 = flags S AND 1"
    by (simp_all add: L6_def L5_def L4_def L3_def L2_def L1_def pvp_def nxp_def and1_and1)
  have d6: "distinct ((xs @ ys) @ ps)" using dist by auto
  have v6: "list_all valid_addr ((xs @ ys) @ ps)" using va by simp
  have w6: "wf_L h8 L6 (xs @ ys) ps"
    unfolding wf_L_def f6 using hp(1,2,3) c6 d6 v6 zk by simp
  have c7: "cache_ok D7 ?ms"
  proof (cases "us = []")
    case True
    then show ?thesis using cod by (simp add: D7_def)
  next
    case False
    have lt: "length us - 1 < length ?ms" using False by (cases us) simp_all
    have nth: "?ms ! (length us - 1) = last us" using False by (simp add: nth_append last_conv_nth)
    show ?thesis using cache_ok_go_cache [OF cod lt] nth False by (simp add: D7_def)
  qed
  have c8: "cache_ok D8 ?ms"
  proof (cases "vs = []")
    case True
    then show ?thesis using c7 by (simp add: D8_def)
  next
    case False
    have lt: "length us < length ?ms" using False by simp
    have nth: "?ms ! length us = hd vs" using False by (simp add: nth_append hd_conv_nth)
    show ?thesis using cache_ok_go_cache [OF c7 lt] nth False by (simp add: D8_def)
  qed
  have r13: "ruly D13 = ruly D8" "rul D13 = rul D8" "flags D13 = flags D8"
    by (simp_all add: D13_def D12_def D11_def)
  have c14: "cache_ok D14 (us @ zs @ vs)"
  proof (cases "length us \<le> ruly D13")
    case True
    then show ?thesis by (simp add: D14_def cache_ok_invalid)
  next
    case False
    then have "ruly D8 < length us" using r13(1) by simp
    from cache_ok_prefix [OF c8 r13 this] show ?thesis using False by (simp add: D14_def)
  qed
  have f14: "head D14 = (if us = [] then Some (hd zs) else head D)"
    "tail D14 = (if vs = [] then Some (last zs) else tail D)"
    "size_l D14 = length (us @ zs @ vs)" "pkb D14 = pkb D" "zskb D14 = zskb D"
    "type_size D14 = type_size D" "flags D14 AND 1 = flags D AND 1"
    by (simp_all add: D14_def D13_def D12_def D11_def D8_def D7_def and1_and1)
  have d14: "distinct ((us @ zs @ vs) @ qs)" using dall by auto
  have v14: "list_all valid_addr ((us @ zs @ vs) @ qs)" using va vad by simp
  have w14: "wf_L h8 D14 (us @ zs @ vs) qs"
    unfolding wf_L_def f14 using hp(4,5,6) c14 d14 v14 zkd by simp
  have fr: "\<forall>a. a \<notin> set (xs @ zs @ ys) \<union> set (us @ vs) \<longrightarrow> h8 a = nodes s a"
    using hp(7) by blast
  have pa: "\<forall>a. map_option payload (h8 a) = map_option payload (nodes s a)"
    using hp(8) by blast
  have dm: "\<forall>a. (h8 a = None) = (nodes s a = None)"
    using hp(9) by blast
  have n': "nodes s' = h8" "lists s' = (lists s)(src \<mapsto> L6, dst \<mapsto> D14)"
    "brk s' = brk s" "budget s' = budget s" "mallocs s' = mallocs s" "freed s' = freed s"
    by (simp_all add: s'_def)
  show ?thesis
    apply (rule exI [of _ s'], rule exI [of _ L6], rule exI [of _ D14])
    unfolding n'
    using run w6 w14 f6(6,7) f14(6,7) fr pa dm by blast
qed

lemma split3: "i + c \<le> length ns \<Longrightarrow> ns = take i ns @ take c (drop i ns) @ drop (i + c) ns"
  by (metis add.commute append_take_drop_id drop_drop)

lemma clist_splice_ok:
  fixes s :: "'a mem"
  assumes sd: "src \<noteq> dst" and wS: "wf_list s src ns ps" and wD: "wf_list s dst ms qs"
    and dj: "set (ns @ ps) \<inter> set (ms @ qs) = {}"
    and S: "lists s src = Some S" and D: "lists s dst = Some D"
    and ts: "type_size S = type_size D" and fl: "flags S AND 1 = flags D AND 1"
    and b: "idx + count \<le> length ns" and p: "pos \<le> length ms" and c: "0 < count"
  shows "\<exists>s' S' D'. clist_splice (Some src) idx count (Some dst) pos s = Some s'
     \<and> lists s' = (lists s)(src \<mapsto> S', dst \<mapsto> D')
     \<and> wf_list s' src (take idx ns @ drop (idx + count) ns) ps
     \<and> wf_list s' dst (take pos ms @ take count (drop idx ns) @ drop pos ms) qs
     \<and> type_size S' = type_size S \<and> flags S' AND 1 = flags S AND 1
     \<and> type_size D' = type_size D \<and> flags D' AND 1 = flags D AND 1
     \<and> (\<forall>a. a \<notin> set ns \<union> set ms \<longrightarrow> nodes s' a = nodes s a)
     \<and> (\<forall>a. payload_at s' (Some a) = payload_at s (Some a))
     \<and> (\<forall>a. (nodes s' a = None) = (nodes s a = None))
     \<and> brk s' = brk s \<and> budget s' = budget s \<and> mallocs s' = mallocs s \<and> freed s' = freed s"
proof -
  define xs where "xs = take idx ns"
  define zs where "zs = take count (drop idx ns)"
  define ys where "ys = drop (idx + count) ns"
  define us where "us = take pos ms"
  define vs where "vs = drop pos ms"
  have ns: "ns = xs @ zs @ ys" unfolding xs_def zs_def ys_def using b by (rule split3)
  have ms: "ms = us @ vs" by (simp add: us_def vs_def)
  have len: "length xs = idx" "length zs = count" "length us = pos"
    using b p by (simp_all add: xs_def zs_def us_def)
  have nz: "zs \<noteq> []" using len(2) c by auto
  have wS': "wf_L (nodes s) S (xs @ zs @ ys) ps" using wS S by (simp add: wf_list_def ns)
  have wD': "wf_L (nodes s) D (us @ vs) qs" using wD D by (simp add: wf_list_def ms)
  have dj': "set (xs @ zs @ ys @ ps) \<inter> set (us @ vs @ qs) = {}" using dj by (simp add: ns ms)
  from splice_ok_split [OF sd S D wS' wD' nz dj' ts fl] obtain s' S' D' where
    run: "clist_splice (Some src) (length xs) (length zs) (Some dst) (length us) s = Some s'"
    and ls: "lists s' = (lists s)(src \<mapsto> S', dst \<mapsto> D')"
    and w1: "wf_L (nodes s') S' (xs @ ys) ps" and w2: "wf_L (nodes s') D' (us @ zs @ vs) qs"
    and k: "type_size S' = type_size S" "flags S' AND 1 = flags S AND 1"
      "type_size D' = type_size D" "flags D' AND 1 = flags D AND 1"
    and fr: "\<forall>a. a \<notin> set (xs @ zs @ ys) \<union> set (us @ vs) \<longrightarrow> nodes s' a = nodes s a"
    and pa: "\<forall>a. map_option payload (nodes s' a) = map_option payload (nodes s a)"
    and dm: "\<forall>a. (nodes s' a = None) = (nodes s a = None)"
    and r: "brk s' = brk s" "budget s' = budget s" "mallocs s' = mallocs s" "freed s' = freed s"
    by blast
  have run': "clist_splice (Some src) idx count (Some dst) pos s = Some s'"
    using run by (simp add: len)
  have l1: "wf_list s' src (take idx ns @ drop (idx + count) ns) ps"
    using w1 ls sd by (simp add: wf_list_def xs_def ys_def)
  have l2: "wf_list s' dst (take pos ms @ take count (drop idx ns) @ drop pos ms) qs"
    using w2 ls by (simp add: wf_list_def us_def vs_def zs_def)
  have fr': "\<forall>a. a \<notin> set ns \<union> set ms \<longrightarrow> nodes s' a = nodes s a"
    using fr unfolding ns ms by blast
  have pa': "\<forall>a. payload_at s' (Some a) = payload_at s (Some a)"
    using pa payload_at_eq by blast
  show ?thesis
    apply (rule exI [of _ s'], rule exI [of _ S'], rule exI [of _ D'])
    using run' ls l1 l2 k fr' pa' dm r by blast
qed

lemma payloads_eq: "\<forall>a. payload_at s' (Some a) = payload_at s (Some a) \<Longrightarrow> payloads s' xs = payloads s xs"
  by (simp add: payloads_def)

lemma payloads_append: "payloads s (xs @ ys) = payloads s xs @ payloads s ys"
  by (simp add: payloads_def)

lemma payloads_take: "payloads s (take n xs) = take n (payloads s xs)"
  by (simp add: payloads_def take_map)

lemma payloads_drop: "payloads s (drop n xs) = drop n (payloads s xs)"
  by (simp add: payloads_def drop_map)

text \<open>
  C6 (splice). For two distinct well-formed lists that share no node, with equal element
  size and equal ownership bit, and an in-bounds range (\<open>idx + count \<le>\<close> source size,
  \<open>pos \<le>\<close> dest size, \<open>0 < count\<close>), \<^verbatim>\<open>clist_splice\<close> returns; the source chain is the old one
  without the nodes at \<open>idx .. idx + count - 1\<close>, the dest chain is the old one with those
  nodes, in their order, before the node that was at \<open>pos\<close>; the source size goes down and
  the dest size up by \<open>count\<close>; the moved nodes are not in the source chain any more; all
  payloads are as before, so the values of both lists follow the chains; nothing is
  allocated or freed.
\<close>

theorem splice_moves_run:
  fixes s :: "'a mem"
  assumes "src \<noteq> dst" "wf_list s src ns ps" "wf_list s dst ms qs"
    "set (ns @ ps) \<inter> set (ms @ qs) = {}"
    "lists s src = Some S" "lists s dst = Some D"
    "type_size S = type_size D" "flags S AND 1 = flags D AND 1"
    "idx + count \<le> length ns" "pos \<le> length ms" "0 < count"
  shows "\<exists>s'. clist_splice (Some src) idx count (Some dst) pos s = Some s'
     \<and> wf_list s' src (take idx ns @ drop (idx + count) ns) ps
     \<and> wf_list s' dst (take pos ms @ take count (drop idx ns) @ drop pos ms) qs
     \<and> clist_size (Some src) s' = Some (length ns - count)
     \<and> clist_size (Some dst) s' = Some (length ms + count)
     \<and> set (take count (drop idx ns)) \<inter> set (take idx ns @ drop (idx + count) ns) = {}
     \<and> payloads s' (take idx ns @ drop (idx + count) ns)
         = take idx (payloads s ns) @ drop (idx + count) (payloads s ns)
     \<and> payloads s' (take pos ms @ take count (drop idx ns) @ drop pos ms)
         = take pos (payloads s ms) @ take count (drop idx (payloads s ns)) @ drop pos (payloads s ms)
     \<and> mallocs s' = mallocs s \<and> freed s' = freed s"
proof -
  from clist_splice_ok [OF assms] obtain s' where
    run: "clist_splice (Some src) idx count (Some dst) pos s = Some s'"
    and l1: "wf_list s' src (take idx ns @ drop (idx + count) ns) ps"
    and l2: "wf_list s' dst (take pos ms @ take count (drop idx ns) @ drop pos ms) qs"
    and pa: "\<forall>a. payload_at s' (Some a) = payload_at s (Some a)"
    and r: "mallocs s' = mallocs s" "freed s' = freed s"
    by blast
  have z1: "clist_size (Some src) s' = Some (length ns - count)"
    using wf_list_size [OF l1] assms(9) by (auto simp: clist_size_def)
  have z2: "clist_size (Some dst) s' = Some (length ms + count)"
    using wf_list_size [OF l2] assms(9,10) by (auto simp: clist_size_def)
  have "distinct ns" using wf_list_distinct [OF assms(2)] by simp
  then have "distinct (take idx ns @ take count (drop idx ns) @ drop (idx + count) ns)"
    using split3 [OF assms(9)] by simp
  then have ab: "set (take count (drop idx ns)) \<inter> set (take idx ns @ drop (idx + count) ns) = {}"
    by auto
  have p1: "payloads s' (take idx ns @ drop (idx + count) ns)
         = take idx (payloads s ns) @ drop (idx + count) (payloads s ns)"
    by (simp only: payloads_eq [OF pa] payloads_append payloads_take payloads_drop)
  have p2: "payloads s' (take pos ms @ take count (drop idx ns) @ drop pos ms)
         = take pos (payloads s ms) @ take count (drop idx (payloads s ns)) @ drop pos (payloads s ms)"
    by (simp only: payloads_eq [OF pa] payloads_append payloads_take payloads_drop)
  show ?thesis
    using run l1 l2 z1 z2 ab p1 p2 r by blast
qed

lemma wf_pair_src: "wf_list pair_mem 100 [1, 2, 3, 4, 5] []"
  by (simp add: wf_list_def wf_L_def pair_mem_def five_list_def five_nodes_def valid_addr_def
      cache_ok_def SIZE_LIMIT_def)

lemma wf_pair_dst: "wf_list pair_mem 200 [6, 7] []"
  by (simp add: wf_list_def wf_L_def pair_mem_def two_list_def five_nodes_def valid_addr_def
      cache_ok_def SIZE_LIMIT_def)

lemma payloads_pair:
  "payloads pair_mem [1, 2, 3, 4, 5] = [Some 10, Some 20, Some 30, Some 40, Some 50]"
  "payloads pair_mem [6, 7] = [Some 60, Some 70]"
  by (simp_all add: payloads_def payload_at_def pair_mem_def five_nodes_def)

theorem splice_moves_run_witness:
  "(100::nat) \<noteq> 200 \<and> wf_list pair_mem 100 [1, 2, 3, 4, 5] [] \<and> wf_list pair_mem 200 [6, 7] []
   \<and> set ([1, 2, 3, 4, 5] @ []) \<inter> set ([6, 7 :: nat] @ []) = {}
   \<and> lists pair_mem 100 = Some five_list \<and> lists pair_mem 200 = Some two_list
   \<and> type_size five_list = type_size two_list \<and> flags five_list AND 1 = flags two_list AND 1
   \<and> (1::nat) + 2 \<le> length [1, 2, 3, 4, 5 :: nat] \<and> (1::nat) \<le> length [6, 7 :: nat] \<and> (0::nat) < 2
   \<and> (\<exists>s'. clist_splice (Some 100) 1 2 (Some 200) 1 pair_mem = Some s'
        \<and> wf_list s' 100 [1, 4, 5] [] \<and> wf_list s' 200 [6, 2, 3, 7] []
        \<and> clist_size (Some 100) s' = Some 3 \<and> clist_size (Some 200) s' = Some 4
        \<and> payloads s' [1, 4, 5] = [Some 10, Some 40, Some 50]
        \<and> payloads s' [6, 2, 3, 7] = [Some 60, Some 20, Some 30, Some 70])"
proof -
  have h: "(100::nat) \<noteq> 200" "set ([1, 2, 3, 4, 5] @ []) \<inter> set ([6, 7 :: nat] @ []) = {}"
    "lists pair_mem 100 = Some five_list" "lists pair_mem 200 = Some two_list"
    "type_size five_list = type_size two_list" "flags five_list AND 1 = flags two_list AND 1"
    "(1::nat) + 2 \<le> length [1, 2, 3, 4, 5 :: nat]" "(1::nat) \<le> length [6, 7 :: nat]" "(0::nat) < 2"
    by (simp_all add: pair_mem_def five_list_def two_list_def)
  have e: "take 1 [1, 2, 3, 4, 5 :: nat] @ drop (1 + 2) [1, 2, 3, 4, 5] = [1, 4, 5]"
    "take 1 [6, 7 :: nat] @ take 2 (drop 1 [1, 2, 3, 4, 5]) @ drop 1 [6, 7] = [6, 2, 3, 7]"
    "length [1, 2, 3, 4, 5 :: nat] - 2 = 3" "length [6, 7 :: nat] + 2 = 4"
    by (simp_all add: numeral_2_eq_2)
  have f: "take 1 [Some 10, Some 20, Some 30, Some 40, Some (50::nat)]
        @ drop (1 + 2) [Some 10, Some 20, Some 30, Some 40, Some 50] = [Some 10, Some 40, Some 50]"
    "take 1 [Some 60, Some (70::nat)] @ take 2 (drop 1 [Some 10, Some 20, Some 30, Some 40, Some 50])
        @ drop 1 [Some 60, Some 70] = [Some 60, Some 20, Some 30, Some 70]"
    by (simp_all add: numeral_2_eq_2)
  from splice_moves_run [OF h(1) wf_pair_src wf_pair_dst h(2-9)]
  have "\<exists>s'. clist_splice (Some 100) 1 2 (Some 200) 1 pair_mem = Some s'
        \<and> wf_list s' 100 [1, 4, 5] [] \<and> wf_list s' 200 [6, 2, 3, 7] []
        \<and> clist_size (Some 100) s' = Some 3 \<and> clist_size (Some 200) s' = Some 4
        \<and> payloads s' [1, 4, 5] = [Some 10, Some 40, Some 50]
        \<and> payloads s' [6, 2, 3, 7] = [Some 60, Some 20, Some 30, Some 70]"
    unfolding e payloads_pair f by blast
  then show ?thesis using h wf_pair_src wf_pair_dst by blast
qed

section \<open>Where the source has no defined behaviour\<close>

lemma node_size_wraps:
  "ts < SIZE_LIMIT \<Longrightarrow> (sizeof_node \<le> sz_add sizeof_node ts) = (sizeof_node + ts < SIZE_LIMIT)"
proof (cases "sizeof_node + ts < SIZE_LIMIT")
  case True
  then show ?thesis by (simp add: sz_add_def)
next
  case False
  assume ts: "ts < SIZE_LIMIT"
  have lt: "sizeof_node + ts - SIZE_LIMIT < sizeof_node" using False ts by arith
  have "sizeof_node < SIZE_LIMIT" by (simp add: sizeof_node_def sizeof_ptr_def SIZE_LIMIT_def)
  then have small: "sizeof_node + ts - SIZE_LIMIT < SIZE_LIMIT" using lt by arith
  have "(sizeof_node + ts) mod SIZE_LIMIT = (sizeof_node + ts - SIZE_LIMIT) mod SIZE_LIMIT"
    using False by (simp add: le_mod_geq)
  also have "\<dots> = sizeof_node + ts - SIZE_LIMIT" using small by simp
  finally show ?thesis using False lt by (simp add: sz_add_def)
qed

lemma insert_overruns_wrapped_node:
  "clist_insert (Some 100) 0 pl wide_mem = None"
  "wf_list wide_mem 100 [] []" "heap_ok wide_mem" "\<not> node_fits wide_mem 100"
  by (cases pl; simp add: clist_insert_def wide_mem_def empty_list_def malloc_node_def
        sz_add_def sizeof_node_def sizeof_ptr_def SIZE_LIMIT_def upd_node_def
        vnut_cl_insert_node_def upd_list_def wf_list_def wf_L_def cache_ok_def heap_ok_def
        node_fits_def)+

lemma erase_frees_unwritten_payload:
  "clist_pop_front (Some 100) owner_mem = None"
  "wf_list owner_mem 100 [1] []" "\<not> frees_ok owner_mem 100 [1]"
  by (simp_all add: clist_pop_front_def clist_erase_def owner_mem_def sz_add_def sz_sub_def
        SIZE_LIMIT_def clist_go_def free_ptr_def CLIST_PAYLOAD_FREE_def wf_list_def wf_L_def
        cache_ok_def valid_addr_def frees_ok_def can_free_def payload_at_def node_at_def)

section \<open>The finger cache under every operation\<close>

text \<open>
  Every operation on a well-formed list whose index range \<open>idx + count\<close> is below \<open>2 ^ 64\<close>
  returns and leaves the list, and a second list of the same store, well-formed; the
  preconditions \<open>node_fits\<close> and \<open>frees_ok\<close> are those under which the source has defined
  behaviour. A well-formed list has a sound cache (\<open>wf_cache_sound\<close>), so the cache is sound
  after each of these operations.
\<close>

lemma wf_cache_sound:
  assumes "wf_list s l ns ps"
  shows "cache_sound s l"
proof -
  from wf_listD [OF assms] obtain L where L: "lists s l = Some L"
    and w: "wf_L (nodes s) L ns ps" by blast
  have p: "path nxt (nodes s) (head L) ns None" and sz: "size_l L = length ns"
    and c: "cache_ok L ns" using w by (simp_all add: wf_L_def)
  have "ruly L < size_l L \<and> walk_next s (ruly L) (head L) = Some (rul L)"
    if v: "flags L AND 2 \<noteq> 0"
  proof -
    have r: "ruly L < length ns" "rul L = Some (ns ! ruly L)"
      using c v by (simp_all add: cache_ok_def)
    have pos: "0 < length ns" using r(1) by linarith
    have hd: "head L = Some (ns ! 0)" by (rule path_first_nth [OF p pos])
    have "walk_next s (ruly L) (Some (ns ! 0)) = Some (Some (ns ! (0 + ruly L)))"
      using r(1) by (intro walk_next_path [OF p]) simp
    then show ?thesis using r hd sz by simp
  qed
  then show ?thesis using L by (simp add: cache_sound_def)
qed

lemma wf_list_frame:
  assumes "wf_list s m ms qs" "lists s' m = lists s m"
    "\<And>a. a \<in> set (ms @ qs) \<Longrightarrow> nodes s' a = nodes s a"
  shows "wf_list s' m ms qs"
proof -
  from wf_listD [OF assms(1)] obtain M where M: "lists s m = Some M"
    and w: "wf_L (nodes s) M ms qs" by blast
  have 1: "path nxt (nodes s') p ms q = path nxt (nodes s) p ms q" for p q
    by (rule path_frame) (simp add: assms(3))
  have 2: "path prv (nodes s') p (rev ms) q = path prv (nodes s) p (rev ms) q" for p q
    by (rule path_frame) (simp add: assms(3))
  have 3: "path nxt (nodes s') p qs q = path nxt (nodes s) p qs q" for p q
    by (rule path_frame) (simp add: assms(3))
  have "wf_L (nodes s') M ms qs" using w by (simp add: wf_L_def 1 2 3)
  then show ?thesis using M assms(2) by (simp add: wf_list_def)
qed

lemma wf_list_alloc:
  assumes "wf_list s m ms qs" "a \<in> set (ms @ qs)"
  shows "nodes s a \<noteq> None"
proof -
  from wf_listD [OF assms(1)] obtain M where w: "wf_L (nodes s) M ms qs" by blast
  have "path nxt (nodes s) (head M) ms None" "path nxt (nodes s) (pkb M) qs None"
    using w by (simp_all add: wf_L_def)
  then show ?thesis using assms(2) path_alloc [of nxt "nodes s" _ _ None a] by auto
qed

lemma pair_step:
  assumes "pair_wf s l ns ps m ms qs" "l \<noteq> m" "wf_list s' l ns' ps'" "heap_ok s'"
    "same_outside s s' l A" "A \<inter> set (ms @ qs) = {}" "set (ns' @ ps') \<subseteq> set (ns @ ps) \<union> A"
  shows "pair_wf s' l ns' ps' m ms qs"
proof -
  have wm: "wf_list s m ms qs" and dj: "set (ns @ ps) \<inter> set (ms @ qs) = {}"
    using assms(1) by (simp_all add: pair_wf_def)
  have "lists s' m = lists s m" using assms(2,5) by (simp add: same_outside_def)
  moreover have "nodes s' a = nodes s a" if "a \<in> set (ms @ qs)" for a
    using that assms(5,6) by (auto simp: same_outside_def)
  ultimately have "wf_list s' m ms qs" by (rule wf_list_frame [OF wm])
  moreover have "set (ns' @ ps') \<inter> set (ms @ qs) = {}"
    using assms(6,7) dj by blast
  ultimately show ?thesis using assms(3,4) by (simp add: pair_wf_def)
qed

lemma pair_wf_sym: "pair_wf s l ns ps m ms qs \<Longrightarrow> pair_wf s m ms qs l ns ps"
  by (auto simp: pair_wf_def)

lemma go_step:
  assumes pw: "pair_wf s l ns ps m ms qs" and lm: "l \<noteq> m"
  shows "\<exists>p s'. clist_go (Some l) i s = Some (p, s') \<and> pair_wf s' l ns ps m ms qs"
proof (cases "i < length ns")
  case True
  have w: "wf_list s l ns ps" and h: "heap_ok s" using pw by (simp_all add: pair_wf_def)
  from clist_go_ok [OF w True] obtain L where L: "lists s l = Some L"
    and go: "clist_go (Some l) i s
         = Some (Some (ns ! i), s\<lparr>lists := (lists s)(l \<mapsto> go_cache L i (Some (ns ! i)))\<rparr>)"
    and w': "wf_list (s\<lparr>lists := (lists s)(l \<mapsto> go_cache L i (Some (ns ! i)))\<rparr>) l ns ps"
    by blast
  have h': "heap_ok (s\<lparr>lists := (lists s)(l \<mapsto> go_cache L i (Some (ns ! i)))\<rparr>)"
    using h by (simp add: heap_ok_def)
  have "pair_wf (s\<lparr>lists := (lists s)(l \<mapsto> go_cache L i (Some (ns ! i)))\<rparr>) l ns ps m ms qs"
    by (rule pair_step [OF pw lm w' h' same_outside_go [of s l _ "{}"]]) simp_all
  then show ?thesis using go by blast
next
  case False
  have w: "wf_list s l ns ps" using pw by (simp add: pair_wf_def)
  from wf_list_size [OF w] obtain L where L: "lists s l = Some L" "size_l L = length ns"
    by blast
  have "clist_go (Some l) i s = Some (None, s)"
    using False L by (intro clist_go_oob [of s l L]) simp_all
  then show ?thesis using pw by blast
qed

lemma set_step:
  fixes s :: "'a mem"
  assumes pw: "pair_wf s l ns ps m ms qs" and lm: "l \<noteq> m"
  shows "\<exists>s'. clist_set (Some l) i v s = Some s' \<and> pair_wf s' l ns ps m ms qs"
proof (cases v)
  case None
  then show ?thesis using pw by (simp add: clist_set_def)
next
  case (Some x)
  have w: "wf_list s l ns ps" and h: "heap_ok s" using pw by (simp_all add: pair_wf_def)
  show ?thesis
  proof (cases "i < length ns")
    case True
    from clist_set_ok [OF w True, of x] obtain s' where
      run: "clist_set (Some l) i (Some x) s = Some s'" and w': "wf_list s' l ns ps"
      and fr: "\<forall>a. a \<noteq> ns ! i \<longrightarrow> nodes s' a = nodes s a"
      and ls: "\<forall>l'. l' \<noteq> l \<longrightarrow> lists s' l' = lists s l'" and b: "brk s' = brk s"
      by blast
    have al: "nodes s (ns ! i) \<noteq> None" using True by (intro wf_list_alloc [OF w]) simp
    have h': "heap_ok s'"
    proof (rule heap_ok_frame [OF h b])
      fix a assume "nodes s a = None"
      then show "nodes s' a = None" using fr al by (cases "a = ns ! i") auto
    qed
    have so: "same_outside s s' l {ns ! i}" using fr ls by (simp add: same_outside_def)
    have dj: "set (ns @ ps) \<inter> set (ms @ qs) = {}" using pw by (simp add: pair_wf_def)
    have "pair_wf s' l ns ps m ms qs"
      using nth_mem [OF True] dj by (intro pair_step [OF pw lm w' h' so]) auto
    then show ?thesis using run Some by blast
  next
    case False
    from wf_list_size [OF w] obtain L where L: "lists s l = Some L" "size_l L = length ns"
      by blast
    have "clist_go (Some l) i s = Some (None, s)"
      using False L by (intro clist_go_oob [of s l L]) simp_all
    then have "clist_set (Some l) i v s = Some s" using Some by (simp add: clist_set_def)
    then show ?thesis using pw by blast
  qed
qed

lemma brk_notin:
  assumes "heap_ok s" "wf_list s m ms qs"
  shows "brk s \<notin> set (ms @ qs)"
proof
  assume "brk s \<in> set (ms @ qs)"
  from wf_list_alloc [OF assms(2) this] show False using assms(1) by (simp add: heap_ok_def)
qed

lemma insert_step:
  fixes s :: "'a mem"
  assumes pw: "pair_wf s l ns ps m ms qs" and lm: "l \<noteq> m" and nf: "node_fits s l"
  shows "\<exists>r s' ns' ps'. clist_insert (Some l) i v s = Some (r, s')
     \<and> pair_wf s' l ns' ps' m ms qs \<and> node_fits s' l
     \<and> length ns' = (if r = EXIT_SUCCESS then length ns + 1 else length ns)"
proof -
  have w: "wf_list s l ns ps" and h: "heap_ok s" and wm: "wf_list s m ms qs"
    and dj: "set (ns @ ps) \<inter> set (ms @ qs) = {}"
    using pw by (simp_all add: pair_wf_def)
  show ?thesis
  proof (cases "i \<le> length ns")
    case False
    from wf_list_size [OF w] obtain L where L: "lists s l = Some L" "size_l L = length ns"
      by blast
    have "clist_insert (Some l) i v s = Some (EXIT_FAILURE, s)"
      using False L by (intro clist_insert_oob [of s l L]) simp_all
    then show ?thesis using pw nf
      by (intro exI [of _ EXIT_FAILURE] exI [of _ s] exI [of _ ns] exI [of _ ps])
        (simp add: EXIT_FAILURE_def EXIT_SUCCESS_def)
  next
    case True
    from clist_insert_ok [OF h w True nf, of v] obtain r s' where
      run: "clist_insert (Some l) i v s = Some (r, s')"
      and res: "if ps = [] \<and> malloc_fails s
        then r = EXIT_FAILURE \<and> s' = s\<lparr>mallocs := mallocs s + 1\<rparr>
        else r = EXIT_SUCCESS \<and>
          (\<exists>n. n = (if ps = [] then brk s else hd ps)
            \<and> wf_list s' l (take i ns @ n # drop i ns) (tl ps) \<and> heap_ok s'
            \<and> mallocs s' = (if ps = [] then mallocs s + 1 else mallocs s)
            \<and> payload_at s' (Some n) = (case v of Some v \<Rightarrow> Some v | None \<Rightarrow> payload_at s (Some n))
            \<and> (\<forall>a. a \<noteq> n \<longrightarrow> payload_at s' (Some a) = payload_at s (Some a))
            \<and> same_outside s s' l (insert n (set ns))
            \<and> freed s' = freed s \<and> node_fits s' l
            \<and> budget s' = (if ps = [] then budget s - 1 else budget s)
            \<and> brk s' = (if ps = [] then brk s + 1 else brk s)
            \<and> map_option (\<lambda>L. flags L AND 1) (lists s' l)
                = map_option (\<lambda>L. flags L AND 1) (lists s l))"
      by blast
    show ?thesis
    proof (cases "ps = [] \<and> malloc_fails s")
      case mf: True
      then have r: "r = EXIT_FAILURE" "s' = s\<lparr>mallocs := mallocs s + 1\<rparr>" using res by simp_all
      have "pair_wf s' l ns ps m ms qs"
        using pw by (auto simp: r pair_wf_def heap_ok_def wf_list_def split: option.splits)
      moreover have "node_fits s' l" using nf by (simp add: r node_fits_def)
      ultimately show ?thesis using run r(1)
        by (intro exI [of _ r] exI [of _ s'] exI [of _ ns] exI [of _ ps])
          (simp add: EXIT_FAILURE_def EXIT_SUCCESS_def)
    next
      case ok: False
      define n where "n = (if ps = [] then brk s else hd ps)"
      have r: "r = EXIT_SUCCESS" and w': "wf_list s' l (take i ns @ n # drop i ns) (tl ps)"
        and h': "heap_ok s'" and so: "same_outside s s' l (insert n (set ns))"
        and nf': "node_fits s' l"
        using res ok unfolding n_def by auto
      have nm: "n \<notin> set (ms @ qs)"
      proof (cases "ps = []")
        case True
        then show ?thesis using brk_notin [OF h wm] by (simp add: n_def)
      next
        case False
        then have "n \<in> set ps" by (simp add: n_def)
        then show ?thesis using dj by auto
      qed
      have a: "insert n (set ns) \<inter> set (ms @ qs) = {}" using nm dj by auto
      have b: "set ((take i ns @ n # drop i ns) @ tl ps) \<subseteq> set (ns @ ps) \<union> insert n (set ns)"
        by (auto dest: in_set_takeD in_set_dropD mem_tlD)
      have "pair_wf s' l (take i ns @ n # drop i ns) (tl ps) m ms qs"
        by (rule pair_step [OF pw lm w' h' so a b])
      then show ?thesis using run r nf' True
        by (intro exI [of _ r] exI [of _ s'] exI [of _ "take i ns @ n # drop i ns"]
            exI [of _ "tl ps"]) simp
    qed
  qed
qed

lemma erase_step:
  fixes s :: "'a mem"
  assumes pw: "pair_wf s l ns ps m ms qs" and lm: "l \<noteq> m"
    and nw: "i + c < SIZE_LIMIT"
    and fo: "i + c \<le> length ns \<and> 0 < c \<longrightarrow> frees_ok s l (take c (drop i ns))"
  shows "\<exists>s' ns' ps'. clist_erase (Some l) i c s = Some s' \<and> pair_wf s' l ns' ps' m ms qs
     \<and> (node_fits s l \<longrightarrow> node_fits s' l)
     \<and> ns' = (if i + c \<le> length ns \<and> 0 < c then take i ns @ drop (i + c) ns else ns)"
proof -
  have w: "wf_list s l ns ps" and h: "heap_ok s"
    and dj: "set (ns @ ps) \<inter> set (ms @ qs) = {}"
    using pw by (simp_all add: pair_wf_def)
  show ?thesis
  proof (cases "i + c \<le> length ns \<and> 0 < c")
    case True
    then have b: "i + c \<le> length ns" and c: "0 < c"
      and f: "frees_ok s l (take c (drop i ns))" using fo by simp_all
    from clist_erase_ok [OF w b c f] h obtain s' where
      run: "clist_erase (Some l) i c s = Some s'"
      and w': "wf_list s' l (take i ns @ drop (i + c) ns) (rev (take c (drop i ns)) @ ps)"
      and so: "same_outside s s' l (set ns)" and h': "heap_ok s'"
      and nf: "node_fits s l \<longrightarrow> node_fits s' l"
      by blast
    have a: "set ns \<inter> set (ms @ qs) = {}" using dj by auto
    have sb: "set ((take i ns @ drop (i + c) ns) @ rev (take c (drop i ns)) @ ps)
        \<subseteq> set (ns @ ps) \<union> set ns"
      by (auto dest: in_set_takeD in_set_dropD)
    have "pair_wf s' l (take i ns @ drop (i + c) ns) (rev (take c (drop i ns)) @ ps) m ms qs"
      by (rule pair_step [OF pw lm w' h' so a sb])
    then show ?thesis using run nf True by auto
  next
    case False
    from wf_list_size [OF w] obtain L where L: "lists s l = Some L" "size_l L = length ns"
      by blast
    have "clist_erase (Some l) i c s = Some s"
      using False L nw by (intro clist_erase_noop [of s l L]) auto
    then show ?thesis using pw False by auto
  qed
qed

lemma invalidate_step:
  assumes pw: "pair_wf s l ns ps m ms qs" and lm: "l \<noteq> m" and L: "lists s l = Some L"
  shows "pair_wf (s\<lparr>lists := (lists s)(l \<mapsto> L\<lparr>flags := flags L AND 1\<rparr>)\<rparr>) l ns ps m ms qs"
proof -
  have w: "wf_list s l ns ps" and h: "heap_ok s" using pw by (simp_all add: pair_wf_def)
  have h': "heap_ok (s\<lparr>lists := (lists s)(l \<mapsto> L\<lparr>flags := flags L AND 1\<rparr>)\<rparr>)"
    using h by (simp add: heap_ok_def)
  show ?thesis
    by (rule pair_step [OF pw lm wf_list_invalidate [OF w L] h'
          same_outside_go [of s l _ "{}"]]) simp_all
qed

lemma resize_loop_step:
  fixes s :: "'a mem"
  assumes "pair_wf s l ns ps m ms qs" "l \<noteq> m" "node_fits s l"
  shows "\<exists>r s' ns' ps'. resize_loop l k v ok s = Some (r, s') \<and> pair_wf s' l ns' ps' m ms qs"
  using assms
proof (induction k arbitrary: s ns ps ok)
  case 0
  then show ?case by auto
next
  case (Suc k)
  show ?case
  proof (cases "ok = EXIT_SUCCESS")
    case False
    then show ?thesis using Suc.prems(1) by auto
  next
    case True
    have w: "wf_list s l ns ps" using Suc.prems(1) by (simp add: pair_wf_def)
    from wf_list_size [OF w] obtain L where L: "lists s l = Some L" "size_l L = length ns"
      by blast
    from insert_step [OF Suc.prems, of "length ns" v] obtain r s1 ns1 ps1 where
      ins: "clist_insert (Some l) (length ns) v s = Some (r, s1)"
      and pw1: "pair_wf s1 l ns1 ps1 m ms qs" and nf1: "node_fits s1 l"
      by blast
    from Suc.IH [OF pw1 Suc.prems(2) nf1, of r] obtain r' s' ns' ps' where
      "resize_loop l k v r s1 = Some (r', s')" "pair_wf s' l ns' ps' m ms qs"
      by blast
    then show ?thesis using True L ins by auto
  qed
qed

lemma resize_step:
  fixes s :: "'a mem"
  assumes pw: "pair_wf s l ns ps m ms qs" and lm: "l \<noteq> m"
    and fo: "n < length ns \<longrightarrow> frees_ok s l (drop n ns)"
    and nf: "length ns < n \<longrightarrow> node_fits s l"
  shows "\<exists>r s' ns' ps'. clist_resize (Some l) n v s = Some (r, s') \<and> pair_wf s' l ns' ps' m ms qs"
proof -
  have w: "wf_list s l ns ps" using pw by (simp add: pair_wf_def)
  from wf_list_size [OF w] obtain L where L: "lists s l = Some L" "size_l L = length ns"
    by blast
  consider "n = length ns" | "n < length ns" | "length ns < n" by linarith
  then show ?thesis
  proof cases
    case 1
    then show ?thesis using L pw by (auto simp: clist_resize_def)
  next
    case 2
    have nw: "n + (length ns - n) < SIZE_LIMIT" using 2 wf_list_bound [OF w] by simp
    have f: "n + (length ns - n) \<le> length ns \<and> 0 < length ns - n \<longrightarrow>
        frees_ok s l (take (length ns - n) (drop n ns))"
      using fo 2 by simp
    from erase_step [OF pw lm nw f] obtain s1 ns1 ps1 where
      er: "clist_erase (Some l) n (length ns - n) s = Some s1"
      and pw1: "pair_wf s1 l ns1 ps1 m ms qs" by blast
    have w1: "wf_list s1 l ns1 ps1" using pw1 by (simp add: pair_wf_def)
    from wf_listD [OF w1] obtain L1 where L1: "lists s1 l = Some L1" by blast
    define s2 where "s2 = (if n \<le> ruly L1
       then s1\<lparr>lists := (lists s1)(l \<mapsto> L1\<lparr>flags := flags L1 AND 1\<rparr>)\<rparr> else s1)"
    have "pair_wf s2 l ns1 ps1 m ms qs"
      using pw1 invalidate_step [OF pw1 lm L1] by (simp add: s2_def)
    moreover have "clist_resize (Some l) n v s = Some (EXIT_SUCCESS, s2)"
      using L 2 er L1 by (simp add: clist_resize_def upd_list_def s2_def)
    ultimately show ?thesis by blast
  next
    case 3
    then have nf': "node_fits s l" using nf by simp
    from resize_loop_step [OF pw lm nf', of "n - length ns" v EXIT_SUCCESS]
    obtain r s' ns' ps' where
      "resize_loop l (n - length ns) v EXIT_SUCCESS s = Some (r, s')"
      "pair_wf s' l ns' ps' m ms qs" by blast
    then show ?thesis using L 3 by (auto simp: clist_resize_def)
  qed
qed

lemma clear_step:
  fixes s :: "'a mem"
  assumes pw: "pair_wf s l ns ps m ms qs" and lm: "l \<noteq> m" and fo: "frees_ok s l ns"
  shows "\<exists>s' ns' ps'. clist_clear (Some l) s = Some s' \<and> pair_wf s' l ns' ps' m ms qs"
proof -
  have w: "wf_list s l ns ps" using pw by (simp add: pair_wf_def)
  from wf_list_size [OF w] obtain L where L: "lists s l = Some L" "size_l L = length ns"
    by blast
  have nw: "0 + length ns < SIZE_LIMIT" using wf_list_bound [OF w] by simp
  have f: "0 + length ns \<le> length ns \<and> 0 < length ns \<longrightarrow>
      frees_ok s l (take (length ns) (drop 0 ns))" using fo by simp
  from erase_step [OF pw lm nw f] obtain s' ns' ps' where
    "clist_erase (Some l) 0 (length ns) s = Some s'" "pair_wf s' l ns' ps' m ms qs" by blast
  then show ?thesis using L by (auto simp: clist_clear_def)
qed

lemma filter_run_sub:
  "set (fst (filter_run f as env)) \<union> set (fst (snd (filter_run f as env))) \<subseteq> set as"
proof (induction as arbitrary: env)
  case Nil
  then show ?case by simp
next
  case (Cons a as)
  obtain K D E where fr: "filter_run f as (snd (f a env)) = (K, D, E)" by (metis prod_cases3)
  from Cons.IH [of "snd (f a env)"] have "set K \<union> set D \<subseteq> set as" by (simp add: fr)
  then show ?case by (auto simp: fr)
qed

lemma filter_step:
  fixes s :: "'a mem"
  assumes pw: "pair_wf s l ns ps m ms qs" and lm: "l \<noteq> m" and fo: "frees_ok s l ns"
  shows "\<exists>e s' ns' ps'. clist_filter (Some l) (Some f) env s = Some (e, s')
     \<and> pair_wf s' l ns' ps' m ms qs"
proof -
  have w: "wf_list s l ns ps" and h: "heap_ok s"
    and dj: "set (ns @ ps) \<inter> set (ms @ qs) = {}"
    using pw by (simp_all add: pair_wf_def)
  let ?g = "\<lambda>a. f (payload_at s (Some a))"
  obtain K D E where fr: "filter_run ?g (rev ns) env = (K, D, E)" by (metis prod_cases3)
  from clist_filter_ok [OF w fo, of f env] h obtain s' where
    run: "clist_filter (Some l) (Some f) env s = Some (E, s')"
    and w': "wf_list s' l K (D @ ps)" and so: "same_outside s s' l (set ns)"
    and h': "heap_ok s'"
    unfolding fr fst_conv snd_conv by blast
  have sub: "set K \<union> set D \<subseteq> set ns" using filter_run_sub [of ?g "rev ns" env] by (simp add: fr)
  have a: "set ns \<inter> set (ms @ qs) = {}" using dj by auto
  have b: "set (K @ D @ ps) \<subseteq> set (ns @ ps) \<union> set ns" using sub by auto
  have "pair_wf s' l K (D @ ps) m ms qs"
    by (rule pair_step [OF pw lm w' h' so a b])
  then show ?thesis using run by blast
qed

lemma splice_step:
  fixes s :: "'a mem"
  assumes pw: "pair_wf s l ns ps m ms qs" and lm: "l \<noteq> m" and nw: "i + c < SIZE_LIMIT"
  shows "\<exists>s' ns' ms'. clist_splice (Some l) i c (Some m) pos s = Some s'
     \<and> pair_wf s' l ns' ps m ms' qs"
proof -
  have w: "wf_list s l ns ps" and h: "heap_ok s" and wm: "wf_list s m ms qs"
    and dj: "set (ns @ ps) \<inter> set (ms @ qs) = {}"
    using pw by (simp_all add: pair_wf_def)
  from wf_list_size [OF w] obtain L where L: "lists s l = Some L" "size_l L = length ns"
    by blast
  from wf_list_size [OF wm] obtain M where M: "lists s m = Some M" "size_l M = length ms"
    by blast
  show ?thesis
  proof (cases "i + c \<le> length ns \<and> pos \<le> length ms \<and> type_size L = type_size M
                 \<and> flags L AND 1 = flags M AND 1 \<and> 0 < c")
    case True
    then have b: "i + c \<le> length ns" and p: "pos \<le> length ms"
      and ts: "type_size L = type_size M" and fl: "flags L AND 1 = flags M AND 1"
      and c: "0 < c" by simp_all
    from clist_splice_ok [OF lm w wm dj L(1) M(1) ts fl b p c] obtain s' where
      run: "clist_splice (Some l) i c (Some m) pos s = Some s'"
      and w1: "wf_list s' l (take i ns @ drop (i + c) ns) ps"
      and w2: "wf_list s' m (take pos ms @ take c (drop i ns) @ drop pos ms) qs"
      and dm: "\<forall>a. (nodes s' a = None) = (nodes s a = None)"
      and bk: "brk s' = brk s"
      by blast
    have h': "heap_ok s'" using dm by (intro heap_ok_frame [OF h bk]) simp
    have d: "distinct (ns @ ps)" by (rule wf_list_distinct [OF w])
    have "distinct (take i ns @ take c (drop i ns) @ drop (i + c) ns)"
      using d split3 [OF b] by simp
    then have z1: "set (take c (drop i ns)) \<inter> set (take i ns @ drop (i + c) ns) = {}"
      by auto
    have z2: "set (take c (drop i ns)) \<inter> set ps = {}"
      using d by (auto dest: in_set_takeD in_set_dropD)
    have "set ((take i ns @ drop (i + c) ns) @ ps)
        \<inter> set ((take pos ms @ take c (drop i ns) @ drop pos ms) @ qs) = {}"
    proof -
      have "set (take i ns @ drop (i + c) ns) \<subseteq> set ns"
        by (auto dest: in_set_takeD in_set_dropD)
      moreover have "set (take pos ms) \<union> set (drop pos ms) \<subseteq> set ms"
        by (auto dest: in_set_takeD in_set_dropD)
      ultimately show ?thesis using dj z1 z2 by auto
    qed
    then have "pair_wf s' l (take i ns @ drop (i + c) ns) ps m
        (take pos ms @ take c (drop i ns) @ drop pos ms) qs"
      using h' w1 w2 by (simp add: pair_wf_def)
    then show ?thesis using run by blast
  next
    case False
    have "clist_splice (Some l) i c (Some m) pos s = Some s"
      using False L M lm nw by (auto simp: clist_splice_def sz_add_simp)
    then show ?thesis using pw by blast
  qed
qed

lemma get_step:
  assumes "pair_wf s l ns ps m ms qs" "l \<noteq> m"
  shows "\<exists>p s'. clist_get (Some l) i s = Some (p, s') \<and> pair_wf s' l ns ps m ms qs"
  using go_step [OF assms] by (simp add: clist_get_def)

lemma init_step:
  fixes s :: "'a mem"
  assumes h: "heap_ok s" and wm: "wf_list s m ms qs" and lm: "l \<noteq> m"
    and run: "clist_init (Some l) tsz dyn s = Some (EXIT_SUCCESS, s')"
  shows "pair_wf s' l [] [] m ms qs"
proof -
  have ok: "dyn = CLIST_PAYLOAD_IGNORE \<or> dyn = CLIST_PAYLOAD_FREE"
    using run by (auto simp: clist_init_def EXIT_SUCCESS_def EXIT_FAILURE_def split: if_splits)
  then have fl: "(dyn AND 1) AND 2 = 0"
    by (auto simp: CLIST_PAYLOAD_IGNORE_def CLIST_PAYLOAD_FREE_def)
  obtain J where J: "lists s l = Some J"
    and s': "s' = s\<lparr>lists := (lists s)(l \<mapsto> J\<lparr>head := None, tail := None, pkb := None,
                 type_size := tsz, size_l := 0, zskb := 0, flags := dyn AND 1\<rparr>)\<rparr>"
    using run
    by (auto simp: clist_init_def upd_list_def EXIT_SUCCESS_def EXIT_FAILURE_def
        split: if_splits option.splits bind_splits)
  have w: "wf_list s' l [] []" using fl by (simp add: s' wf_list_def wf_L_def cache_ok_def)
  have wm': "wf_list s' m ms qs" using lm by (intro wf_list_frame [OF wm]) (auto simp: s')
  have "heap_ok s'" using h by (simp add: s' heap_ok_def)
  then show ?thesis using w wm' by (simp add: pair_wf_def)
qed

lemma pair_wf_sound:
  assumes "pair_wf s l ns ps m ms qs"
  shows "cache_sound s l \<and> cache_sound s m"
  using assms wf_cache_sound [of s l ns ps] wf_cache_sound [of s m ms qs]
  by (simp add: pair_wf_def)

section \<open>A range that wraps in the bounds check of the splice\<close>

lemma get_sets_cache:
  "clist_get (Some 100) 2 pair_mem = Some (Some 3, cached_mem)"
  by (simp add: clist_get_def clist_go_def pair_mem_def cached_mem_def five_list_def
      five_nodes_def two_list_def node_at_def go_select_def anchor_ptr_def upd_list_def
      numeral_2_eq_2 fun_eq_iff)

lemma splice_wrapped:
  "clist_splice (Some 100) 3 (2 ^ 64 - 1) (Some 200) 0 cached_mem = Some stale_mem"
  by (simp add: clist_splice_def clist_go_def cached_mem_def stale_mem_def five_nodes_def
      two_list_def node_at_def upd_list_def upd_node_def sz_add_def sz_sub_def SIZE_LIMIT_def
      Let_def fun_eq_iff)

lemma walks_from_head:
  "walk_next cached_mem 2 (Some 1) = Some (Some 3)"
  "walk_next stale_mem 2 (Some 1) = Some (Some 6)"
  "walk_next stale_mem 4 (Some 1) = Some None"
  by (simp_all add: cached_mem_def stale_mem_def five_nodes_def node_at_def numeral_2_eq_2
      eval_nat_numeral)

lemma get_on_stale:
  "clist_get (Some 100) 2 stale_mem = Some (Some 3, stale_mem)"
  "clist_size (Some 100) stale_mem = Some 6"
  by (simp_all add: clist_get_def clist_go_def stale_mem_def node_at_def go_select_def
      anchor_ptr_def upd_list_def clist_size_def numeral_2_eq_2 fun_eq_iff)

lemma stale_list:
  "lists stale_mem 100 = Some \<lparr>head = Some 1, tail = Some 5, rul = Some 3, pkb = None,
      type_size = 4, size_l = 6, ruly = 2, zskb = 0, flags = 2\<rparr>"
  by (simp add: stale_mem_def)

text \<open>
  C3 fails on the code for \<^verbatim>\<open>clist_splice\<close> when \<open>idx + count\<close> wraps. The list at 100 holds
  the nodes 1 to 5 and the list at 200 the nodes 6 and 7. \<^verbatim>\<open>clist_get(&a, 2)\<close> sets the cache
  of the first list to node 3 at index 2, which is the node two steps from the head. In
  \<^verbatim>\<open>clist_splice(&a, 3, SIZE_MAX, &b, 0)\<close> the sum \<open>3 + (2 ^ 64 - 1)\<close> wraps to 2, so the bounds
  check \<open>idx + count \<le> size\<close> passes although the range is not valid; the function takes node
  4 as the first and node 2 as the last node of the run, links node 3 to itself, links
  node 2 to node 6 and sets the size to 6. The cached index 2 is below \<open>idx\<close>, so the
  validity bit stays set and the cache still holds node 3, while the node two steps from
  the head is now node 6: \<^verbatim>\<open>clist_get(&a, 2)\<close> returns node 3, which is no longer in the
  chain, and the chain of the list that reports size 6 ends after four nodes.
\<close>

theorem wrapped_splice_leaves_stale_cache:
  "clist_get (Some 100) 2 pair_mem = Some (Some 3, cached_mem)
   \<and> walk_next cached_mem 2 (Some 1) = Some (Some 3)
   \<and> clist_splice (Some 100) 3 (2 ^ 64 - 1) (Some 200) 0 cached_mem = Some stale_mem
   \<and> lists stale_mem 100 = Some \<lparr>head = Some 1, tail = Some 5, rul = Some 3, pkb = None,
        type_size = 4, size_l = 6, ruly = 2, zskb = 0, flags = 2\<rparr>
   \<and> walk_next stale_mem 2 (Some 1) = Some (Some 6)
   \<and> walk_next stale_mem 4 (Some 1) = Some None
   \<and> clist_get (Some 100) 2 stale_mem = Some (Some 3, stale_mem)
   \<and> clist_size (Some 100) stale_mem = Some 6"
  using get_sets_cache splice_wrapped walks_from_head get_on_stale stale_list by simp

text \<open>The store before the splice is well-formed and its cache is sound; the cache of the
  store after it is not.\<close>

lemma wrapped_splice_breaks_soundness:
  "pair_wf cached_mem 100 [1, 2, 3, 4, 5] [] 200 [6, 7] []
   \<and> cache_sound cached_mem 100 \<and> \<not> cache_sound stale_mem 100"
proof -
  have "pair_wf pair_mem 100 [1, 2, 3, 4, 5] [] 200 [6, 7] []"
    using wf_pair_src wf_pair_dst by (simp add: pair_wf_def heap_ok_def pair_mem_def five_nodes_def)
  from get_step [OF this, of 2] have p: "pair_wf cached_mem 100 [1, 2, 3, 4, 5] [] 200 [6, 7] []"
    by (simp add: get_sets_cache)
  have "\<not> cache_sound stale_mem 100"
    using walks_from_head(2) by (simp add: cache_sound_def stale_list)
  then show ?thesis using p pair_wf_sound [OF p] by simp
qed

end
